theory Spec2Isabelle
  imports Main "HOL-Library.Word" "HOL-Library.Multiset"
begin

unbundle bit_operations_syntax

section \<open>Data model (dhcpd-pools.h)\<close>

type_synonym u8 = "8 word"
type_synonym u32 = "32 word"

text \<open>
  \<^verbatim>\<open>union ipaddr_t { uint32_t v4; unsigned char v6[16]; }\<close>.  The program selects one
  address family per run and from then on reads and writes only the member of that
  family, so the two members are modelled as two independent fields: \<open>v4\<close> is the
  host-order 32-bit value, \<open>v6\<close> the 16 bytes in network order.
\<close>

record ipaddr_t =
  v4 :: u32
  v6 :: "u8 list"

datatype dhcp_version = IPvUNKNOWN | IPv4 | IPv6

datatype ltype = ACTIVE | FREE | BACKUP

text \<open>
  \<^verbatim>\<open>struct shared_network_t\<close>.  The linked list that starts at
  \<^verbatim>\<open>state->shared_net_root\<close> is a list whose element 0 is the root ("All networks").
  The fields are C doubles.  \<open>snet_available\<close> sums range sizes, which for IPv6 exceed
  the 53 bits a double holds exactly, so it is an integer-valued double with the
  rounding of every addition written out (\<open>dadd\<close> below).  The other three sum lease
  counts, which stay far below \<open>2^53\<close>, where double arithmetic on integers is exact;
  they are natural numbers.
\<close>

record shared_network_t =
  name :: string
  snet_available :: int
  snet_used :: nat
  snet_touched :: nat
  snet_backups :: nat

text \<open>
  \<^verbatim>\<open>struct range_t\<close>.  The pointer \<^verbatim>\<open>shared_net\<close> is the index of the pointed-to
  network in the shared network list (0 is the root).  The three counters are doubles
  that are only ever incremented by one per lease; they are natural numbers.
\<close>

record range_t =
  shared_net :: nat
  first_ip :: ipaddr_t
  last_ip :: ipaddr_t
  count :: nat
  touched :: nat
  backups :: nat

text \<open>\<^verbatim>\<open>struct leases_t\<close>; the hash handle is the position in the lease list.\<close>

record leases_t =
  ip :: ipaddr_t
  type :: ltype
  ethernet :: "string option"

text \<open>
  \<^verbatim>\<open>comparer_t\<close>, a pointer to a comparison function, and \<^verbatim>\<open>struct output_sort\<close>, the
  linked list of them: a list whose entries are \<open>None\<close> for the \<^verbatim>\<open>NULL\<close> pointer and
  \<open>Some f\<close> for a pointer to \<open>f\<close>.
\<close>

type_synonym comparer_t = "range_t \<Rightarrow> range_t \<Rightarrow> int"

record conf_t =
  shared_nets :: "shared_network_t list"
  ranges :: "range_t list"
  leases :: "leases_t list"
  ip_version :: dhcp_version
  sorts :: "comparer_t option list"

section \<open>Sort engine (sort.c)\<close>

text \<open>
  \<^verbatim>\<open>strcmp\<close> on the bytes of two strings (the lists carry no terminating NUL).  The C
  standard fixes only the sign of the result; the difference of the first two bytes
  that differ is returned, and the callers test the sign only.
\<close>

fun strcmp :: "string \<Rightarrow> string \<Rightarrow> int" where
  "strcmp [] [] = 0"
| "strcmp [] (y # ys) = - int (of_char y)"
| "strcmp (x # xs) [] = int (of_char x)"
| "strcmp (x # xs) (y # ys) =
     (if x = y then strcmp xs ys else int (of_char x) - int (of_char y))"

text \<open>
  The loop of \<^verbatim>\<open>merge\<close> over the sort chain \<open>p\<close>, \<open>p->next\<close>, ...: the first comparator
  with a non-zero result decides; 1 means "left is strictly before right", 0 means
  "right is before left" and is also the value when every comparator ties.
\<close>

fun merge_from :: "shared_network_t list \<Rightarrow> comparer_t option list \<Rightarrow> range_t \<Rightarrow> range_t \<Rightarrow> int" where
  "merge_from nets [] left right = 0"
| "merge_from nets (p # ps) left right =
     (let ret = (case p of
                   None \<Rightarrow> strcmp (name (nets ! shared_net left)) (name (nets ! shared_net right))
                 | Some func \<Rightarrow> func left right)
      in if 0 < ret then 0
         else if ret < 0 then 1
         else merge_from nets ps left right)"

definition merge :: "conf_t \<Rightarrow> range_t \<Rightarrow> range_t \<Rightarrow> int" where
  "merge state left right = merge_from (shared_nets state) (sorts state) left right"

definition MIN_MERGE_SIZE :: nat where
  "MIN_MERGE_SIZE = 8"

text \<open>
  The inner loop of the insertion sort,
  \<^verbatim>\<open>for (s_right = left - 1; 0 <= s_right; s_right--) { if (merge(state, orig + s_right, &hold)) break; orig[s_right + 1] = orig[s_right]; }\<close>
  followed by \<^verbatim>\<open>orig[s_right + 1] = hold\<close>.  The numeric argument is \<open>s_right + 1\<close>,
  which runs from \<open>left\<close> down to 0 (the C variable is a signed int that ends at -1).
\<close>

fun insert_hold :: "conf_t \<Rightarrow> range_t \<Rightarrow> range_t list \<Rightarrow> nat \<Rightarrow> range_t list" where
  "insert_hold state hold orig 0 = orig[0 := hold]"
| "insert_hold state hold orig (Suc s_right) =
     (if merge state (orig ! s_right) hold \<noteq> 0 then orig[Suc s_right := hold]
      else insert_hold state hold (orig[Suc s_right := orig ! s_right]) s_right)"

text \<open>The outer loop \<^verbatim>\<open>for (left = 0; left < size; left++) { hold = orig[left]; ... }\<close>.\<close>

definition insertion_sort :: "conf_t \<Rightarrow> range_t list \<Rightarrow> nat \<Rightarrow> range_t list" where
  "insertion_sort state orig sz =
     foldl (\<lambda>orig left. insert_hold state (orig ! left) orig left) orig [0..<sz]"

text \<open>
  The first merge loop,
  \<^verbatim>\<open>while (left < size / 2 && u_right < size)\<close>.  \<open>temp\<close> is the part \<open>temp[0..i)\<close> of the
  scratch array written so far; \<^verbatim>\<open>temp[i] = x; i++\<close> appends.  The element of the left
  run is taken only when \<^verbatim>\<open>merge\<close> returns non-zero.
\<close>

function merge_runs ::
  "conf_t \<Rightarrow> range_t list \<Rightarrow> nat \<Rightarrow> nat \<Rightarrow> nat \<Rightarrow> range_t list \<Rightarrow> nat \<times> nat \<times> range_t list" where
  "merge_runs state orig sz left u_right temp =
     (if left < sz div 2 \<and> u_right < sz then
        (if merge state (orig ! left) (orig ! u_right) \<noteq> 0
         then merge_runs state orig sz (left + 1) u_right (temp @ [orig ! left])
         else merge_runs state orig sz left (u_right + 1) (temp @ [orig ! u_right]))
      else (left, u_right, temp))"
  by pat_completeness auto
termination
  by (relation "measure (\<lambda>(state, orig, sz, left, u_right, temp).
        (sz div 2 - left) + (sz - u_right))") auto

declare merge_runs.simps [simp del]

text \<open>
  The merge of the two sorted halves of \<open>orig\<close>: the loop above, then the two loops
  that copy what is left of either run, then \<^verbatim>\<open>memcpy(orig, temp, size)\<close>.
\<close>

definition merge_halves :: "conf_t \<Rightarrow> range_t list \<Rightarrow> nat \<Rightarrow> range_t list" where
  "merge_halves state orig sz =
     (case merge_runs state orig sz 0 (sz div 2) [] of
        (left, u_right, temp) \<Rightarrow>
          temp @ map (\<lambda>k. orig ! k) [left..<sz div 2] @ map (\<lambda>k. orig ! k) [u_right..<sz])"

text \<open>
  \<^verbatim>\<open>mergesort_ranges(state, orig, size, temp, root_call)\<close> on the array segment
  \<open>orig[0..size)\<close>, given as a list whose length \<open>sz\<close> is the C parameter
  \<^verbatim>\<open>size\<close>; the result is the segment afterwards.  The scratch buffer and \<^verbatim>\<open>root_call\<close> only manage memory.
\<close>

function mergesort_ranges :: "conf_t \<Rightarrow> range_t list \<Rightarrow> range_t list" where
  "mergesort_ranges state orig =
     (let sz = length orig in
      if sz < MIN_MERGE_SIZE then insertion_sort state orig sz
      else merge_halves state
             (mergesort_ranges state (take (sz div 2) orig) @
              mergesort_ranges state (drop (sz div 2) orig)) sz)"
  by pat_completeness auto
termination
  by (relation "measure (\<lambda>(state, orig). length orig)") (auto simp: MIN_MERGE_SIZE_def)

declare mergesort_ranges.simps [simp del]


text \<open>
  \<^verbatim>\<open>flip_ranges\<close>: \<open>tmp_ranges[j] = ranges[i]\<close> for \<open>j = 0, 1, ...\<close> while \<open>i\<close> counts
  down from \<open>num_ranges - 1\<close>, then the copy back.  \<open>num_ranges\<close> is the length of
  the range list.
\<close>

definition flip_ranges :: "conf_t \<Rightarrow> conf_t" where
  "flip_ranges state =
     (let num_ranges = length (ranges state);
          tmp_ranges = map (\<lambda>j. ranges state ! (num_ranges - 1 - j)) [0..<num_ranges]
      in state\<lparr>ranges := tmp_ranges\<rparr>)"

text \<open>
  \<^verbatim>\<open>field_selector\<close> returns the address of one of seven functions, or \<^verbatim>\<open>NULL\<close> for
  the key \<open>n\<close>.  The address is modelled by the name of the function it points to.
  \<^verbatim>\<open>error(EXIT_FAILURE, 0, "field_selector: unknown sort order: %s", quote(str))\<close> prints
  the message and ends the process; it is the error value.
\<close>

datatype comparer =
  Comp_ip | Comp_max | Comp_cur | Comp_percent | Comp_touched | Comp_tc | Comp_tcperc

datatype fatal = Unknown_sort_order char

definition field_selector :: "char \<Rightarrow> fatal + comparer option" where
  "field_selector c =
     (if c = CHR ''n'' then Inr None
      else if c = CHR ''i'' then Inr (Some Comp_ip)
      else if c = CHR ''m'' then Inr (Some Comp_max)
      else if c = CHR ''c'' then Inr (Some Comp_cur)
      else if c = CHR ''p'' then Inr (Some Comp_percent)
      else if c = CHR ''t'' then Inr (Some Comp_touched)
      else if c = CHR ''T'' then Inr (Some Comp_tc)
      else if c = CHR ''e'' then Inr (Some Comp_tcperc)
      else Inl (Unknown_sort_order c))"

section \<open>Address model (sort.c, other.c)\<close>

text \<open>
  \<^verbatim>\<open>memcmp(a, b, n)\<close> on two byte arrays.  Only the sign of the result is fixed by the
  C standard; the difference of the first two bytes that differ is returned.  The last
  equation is a read past the end of an array, which the 16-byte addresses never do.
\<close>

fun memcmp :: "u8 list \<Rightarrow> u8 list \<Rightarrow> nat \<Rightarrow> int" where
  "memcmp a b 0 = 0"
| "memcmp (x # xs) (y # ys) (Suc n) =
     (if x = y then memcmp xs ys n else int (unat x) - int (unat y))"
| "memcmp a b (Suc n) = 0"

definition ipcomp_init :: "ipaddr_t \<Rightarrow> ipaddr_t \<Rightarrow> int" where
  "ipcomp_init a b = 0"

definition ipcomp_v4 :: "ipaddr_t \<Rightarrow> ipaddr_t \<Rightarrow> int" where
  "ipcomp_v4 a b = (if v4 a < v4 b then - 1 else if v4 a > v4 b then 1 else 0)"

definition ipcomp_v6 :: "ipaddr_t \<Rightarrow> ipaddr_t \<Rightarrow> int" where
  "ipcomp_v6 a b = memcmp (v6 a) (v6 b) 16"

text \<open>
  The function pointer \<^verbatim>\<open>ipcomp\<close> as \<^verbatim>\<open>set_ipv_functions(state, version)\<close> binds it; the
  same call stores \<open>version\<close> in \<^verbatim>\<open>state->ip_version\<close>.
\<close>

fun ipcomp :: "dhcp_version \<Rightarrow> ipaddr_t \<Rightarrow> ipaddr_t \<Rightarrow> int" where
  "ipcomp IPvUNKNOWN = ipcomp_init"
| "ipcomp IPv4 = ipcomp_v4"
| "ipcomp IPv6 = ipcomp_v6"

definition comp_ip :: "dhcp_version \<Rightarrow> range_t \<Rightarrow> range_t \<Rightarrow> int" where
  "comp_ip version r1 r2 = ipcomp version (first_ip r1) (first_ip r2)"

subsection \<open>Double arithmetic on integers\<close>

text \<open>
  Range sizes are C doubles (IEEE 754 binary64, round to nearest, ties to even, every
  operation rounded to double).  Every double that the size computations and the sums
  of sizes produce is an integer, far below the overflow threshold, so a double is
  modelled by the integer it holds and each operation rounds its exact result to 53
  significant bits.  \<open>ulp_of n\<close> is the distance between neighbouring doubles at
  magnitude \<open>n\<close>.
\<close>

function ulp_of :: "nat \<Rightarrow> nat" where
  "ulp_of n = (if n < 2 ^ 53 then 1 else 2 * ulp_of (n div 2))"
  by pat_completeness auto
termination
  by (relation "measure (\<lambda>n. n)") auto

declare ulp_of.simps [simp del]

definition round_double :: "int \<Rightarrow> int" where
  "round_double x =
     (let n = nat \<bar>x\<bar>; q = ulp_of n; m = n div q; r = n mod q;
          m' = (if 2 * r < q then m
                else if q < 2 * r then m + 1
                else if even m then m else m + 1)
      in sgn x * int (m' * q))"

definition dadd :: "int \<Rightarrow> int \<Rightarrow> int" where
  "dadd a b = round_double (a + b)"

definition dmul :: "int \<Rightarrow> int \<Rightarrow> int" where
  "dmul a b = round_double (a * b)"

subsection \<open>Range size\<close>

definition get_range_size_init :: "range_t \<Rightarrow> int" where
  "get_range_size_init r = 0"

text \<open>
  \<^verbatim>\<open>r->last_ip.v4 - r->first_ip.v4 + 1\<close> is computed in \<^verbatim>\<open>uint32_t\<close> and wraps modulo
  \<open>2^32\<close>; the conversion of the result to double is exact.
\<close>

definition get_range_size_v4 :: "range_t \<Rightarrow> int" where
  "get_range_size_v4 r = uint (v4 (last_ip r) - v4 (first_ip r) + 1)"

text \<open>
  The loop \<^verbatim>\<open>for (i = 0; i < 16; i++) { size *= 256; size += (int)last[i] - (int)first[i]; }\<close>
  walks the two 16-byte arrays in step; the byte difference is an exact \<^verbatim>\<open>int\<close>.
\<close>

definition get_range_size_v6 :: "range_t \<Rightarrow> int" where
  "get_range_size_v6 r =
     dadd (foldl (\<lambda>sz (l, f). dadd (dmul sz 256) (int (unat l) - int (unat f))) 0
             (zip (v6 (last_ip r)) (v6 (first_ip r)))) 1"

fun get_range_size :: "dhcp_version \<Rightarrow> range_t \<Rightarrow> int" where
  "get_range_size IPvUNKNOWN = get_range_size_init"
| "get_range_size IPv4 = get_range_size_v4"
| "get_range_size IPv6 = get_range_size_v6"

subsection \<open>Last address of a CIDR block\<close>

text \<open>
  \<^verbatim>\<open>cidr_last_v4\<close> and \<^verbatim>\<open>cidr_last_v6\<close> compute the last address and return it printed
  by \<^verbatim>\<open>inet_ntop\<close>; \<^verbatim>\<open>parse_cidr\<close> parses that text back at once.  The result here is
  the address before printing.  \<^verbatim>\<open>1U << (32 - mask)\<close> with a shift count outside
  \<open>0..31\<close>, and a mask beyond 128 in the IPv6 loop (a write past the 16 bytes), are
  undefined in C: no value.  \<open>masklen\<close> is the C parameter \<^verbatim>\<open>mask\<close>.
\<close>

definition cidr_last_v4 :: "ipaddr_t \<Rightarrow> int \<Rightarrow> ipaddr_t option" where
  "cidr_last_v4 addr masklen =
     (if masklen < 0 \<or> 32 < masklen then None
      else let netmask = (if masklen \<noteq> 0 then push_bit (nat (32 - masklen)) (1 :: u32) - 1 else 0)
           in Some (addr\<lparr>v4 := v4 addr OR netmask\<rparr>))"

text \<open>
  \<^verbatim>\<open>for (i = mask, j = 0; i > 0; i -= 8, j++)\<close>: a full byte of ones while at least 8
  mask bits remain, else \<^verbatim>\<open>(unsigned char)(0xffU << (8 - i))\<close>.
\<close>

function bitmask_loop :: "int \<Rightarrow> nat \<Rightarrow> u8 list \<Rightarrow> u8 list" where
  "bitmask_loop i j bitmask =
     (if 0 < i then
        bitmask_loop (i - 8) (j + 1)
          (bitmask[j := (if 8 \<le> i then 0xff else push_bit (nat (8 - i)) (0xff :: u8))])
      else bitmask)"
  by pat_completeness auto
termination
  by (relation "measure (\<lambda>(i, j, bitmask). nat i)") auto

declare bitmask_loop.simps [simp del]

definition cidr_last_v6 :: "ipaddr_t \<Rightarrow> int \<Rightarrow> ipaddr_t option" where
  "cidr_last_v6 addr masklen =
     (if 128 < masklen then None
      else let bitmask = bitmask_loop masklen 0 (replicate 16 0)
           in Some (addr\<lparr>v6 := map2 (\<lambda>a m. a OR NOT m) (v6 addr) bitmask\<rparr>))"

text \<open>The function pointer \<^verbatim>\<open>cidr_last\<close>; it is \<^verbatim>\<open>NULL\<close> before a family is chosen.\<close>

fun cidr_last :: "dhcp_version \<Rightarrow> ipaddr_t \<Rightarrow> int \<Rightarrow> ipaddr_t option" where
  "cidr_last IPvUNKNOWN addr masklen = None"
| "cidr_last IPv4 addr masklen = cidr_last_v4 addr masklen"
| "cidr_last IPv6 addr masklen = cidr_last_v6 addr masklen"

section \<open>Reconciliation engine (analyze.c)\<close>

text \<open>
  The leases, once sorted by \<^verbatim>\<open>HASH_SORT\<close>, form a doubly linked list that starts at
  \<^verbatim>\<open>state->leases\<close>.  A pointer into it is \<open>None\<close> for \<^verbatim>\<open>NULL\<close> or \<open>Some i\<close> for the
  lease at position \<open>i\<close>; \<^verbatim>\<open>hh.prev\<close> of the first lease and \<^verbatim>\<open>hh.next\<close> of the last
  one are \<^verbatim>\<open>NULL\<close>.
\<close>

definition leases_head :: "leases_t list \<Rightarrow> nat option" where
  "leases_head ls = (if ls = [] then None else Some 0)"

definition hh_prev :: "nat \<Rightarrow> nat option" where
  "hh_prev i = (if i = 0 then None else Some (i - 1))"

definition hh_next :: "leases_t list \<Rightarrow> nat \<Rightarrow> nat option" where
  "hh_next ls i = (if Suc i < length ls then Some (Suc i) else None)"

text \<open>\<^verbatim>\<open>while (l != NULL && ipcomp(&range_p->first_ip, &l->ip) < 0) l = l->hh.prev;\<close>\<close>

function rewind :: "dhcp_version \<Rightarrow> leases_t list \<Rightarrow> range_t \<Rightarrow> nat option \<Rightarrow> nat option" where
  "rewind version ls range_p None = None"
| "rewind version ls range_p (Some i) =
     (if ipcomp version (first_ip range_p) (ip (ls ! i)) < 0
      then rewind version ls range_p (hh_prev i)
      else Some i)"
  by pat_completeness auto
termination
  by (relation "measure (\<lambda>(version, ls, range_p, l). case l of None \<Rightarrow> 0 | Some i \<Rightarrow> Suc i)")
     (auto simp: hh_prev_def)

text \<open>The \<^verbatim>\<open>switch (l->type)\<close> that counts one lease in its range.\<close>

fun count_lease :: "range_t \<Rightarrow> ltype \<Rightarrow> range_t" where
  "count_lease range_p FREE = range_p\<lparr>touched := touched range_p + 1\<rparr>"
| "count_lease range_p ACTIVE = range_p\<lparr>count := count range_p + 1\<rparr>"
| "count_lease range_p BACKUP = range_p\<lparr>backups := backups range_p + 1\<rparr>"

text \<open>
  \<^verbatim>\<open>for (; l != NULL && ipcomp(&l->ip, &range_p->last_ip) <= 0; l = l->hh.next)\<close> with
  its body; the result is the range and where \<open>l\<close> stopped.
\<close>

function scan_leases ::
  "dhcp_version \<Rightarrow> leases_t list \<Rightarrow> range_t \<Rightarrow> nat option \<Rightarrow> range_t \<times> nat option" where
  "scan_leases version ls range_p None = (range_p, None)"
| "scan_leases version ls range_p (Some i) =
     (if ipcomp version (ip (ls ! i)) (last_ip range_p) \<le> 0 then
        (if ipcomp version (ip (ls ! i)) (first_ip range_p) < 0
         then scan_leases version ls range_p (hh_next ls i)
         else scan_leases version ls (count_lease range_p (type (ls ! i))) (hh_next ls i))
      else (range_p, Some i))"
  by pat_completeness auto
termination
  by (relation "measure (\<lambda>(version, ls, range_p, l).
        case l of None \<Rightarrow> 0 | Some i \<Rightarrow> Suc (length ls - i))")
     (auto simp: hh_next_def)

text \<open>
  The four \<^verbatim>\<open>+=\<close> on one shared network.  \<open>block_size\<close> and \<open>available\<close> are doubles
  whose sum is rounded.
\<close>

definition add_range :: "int \<Rightarrow> range_t \<Rightarrow> shared_network_t \<Rightarrow> shared_network_t" where
  "add_range block_size range_p net =
     net\<lparr>snet_available := dadd (snet_available net) block_size,
         snet_used := snet_used net + count range_p,
         snet_touched := snet_touched net + touched range_p,
         snet_backups := snet_backups net + backups range_p\<rparr>"

text \<open>
  The totals of the range's own network, and of the root when that network is not the
  root (\<^verbatim>\<open>range_p->shared_net != state->shared_net_root\<close>).
\<close>

definition add_to_networks ::
  "int \<Rightarrow> range_t \<Rightarrow> shared_network_t list \<Rightarrow> shared_network_t list" where
  "add_to_networks block_size range_p nets =
     (let nets = nets[shared_net range_p := add_range block_size range_p (nets ! shared_net range_p)]
      in if shared_net range_p \<noteq> 0
         then nets[0 := add_range block_size range_p (nets ! 0)]
         else nets)"

text \<open>
  The loop \<^verbatim>\<open>for (i = 0; i < state->num_ranges; i++, range_p++)\<close> over the remaining
  ranges, with the lease pointer \<open>l\<close> and the shared networks as they stand.
\<close>

fun walk_ranges ::
  "dhcp_version \<Rightarrow> leases_t list \<Rightarrow> range_t list \<Rightarrow> nat option \<Rightarrow> shared_network_t list \<Rightarrow>
   range_t list \<times> shared_network_t list" where
  "walk_ranges version ls [] l nets = ([], nets)"
| "walk_ranges version ls (range_p # rest) l nets =
     (let l = rewind version ls range_p l;
          l = (if l = None then leases_head ls else l);
          (range_p, l) = scan_leases version ls range_p l;
          block_size = get_range_size version range_p;
          nets = add_to_networks block_size range_p nets;
          (rest, nets) = walk_ranges version ls rest l nets
      in (range_p # rest, nets))"

definition do_counting :: "conf_t \<Rightarrow> conf_t" where
  "do_counting state =
     (let (rs, nets) = walk_ranges (ip_version state) (leases state) (ranges state)
                         (leases_head (leases state)) (shared_nets state)
      in state\<lparr>ranges := rs, shared_nets := nets\<rparr>)"

section \<open>Lease index\<close>

text \<open>
  Modelled from the spec: \<^verbatim>\<open>find(address)\<close> of the lease index (hash.c is not among the
  files): the lease recorded for the address, or absent.
\<close>

definition find_lease :: "leases_t list \<Rightarrow> ipaddr_t \<Rightarrow> leases_t option" where
  "find_lease index addr = find (\<lambda>l. ip l = addr) index"

text \<open>
  Modelled from the spec: \<^verbatim>\<open>insert_or_update(address, state)\<close> of the lease index, whose
  source (hash.c) is not among the files; only its prototypes are.  The index is the
  collection of lease records, keyed by address; an address that is already present
  has the state of its record overwritten, a new address gets a new record.
\<close>

definition insert_or_update :: "leases_t list \<Rightarrow> ipaddr_t \<Rightarrow> ltype \<Rightarrow> leases_t list" where
  "insert_or_update index addr st =
     (case find_lease index addr of
        Some found \<Rightarrow> map (\<lambda>l. if ip l = addr then l\<lparr>type := st\<rparr> else l) index
      | None \<Rightarrow> index @ [\<lparr>ip = addr, type = st, ethernet = None\<rparr>])"

text \<open>
  The call \<^verbatim>\<open>mergesort_ranges(&state, state.ranges, state.num_ranges, NULL, 1)\<close> of
  \<^verbatim>\<open>main\<close>, which sorts the range array of the state in place.
\<close>

definition sort_ranges :: "conf_t \<Rightarrow> conf_t" where
  "sort_ranges state = state\<lparr>ranges := mergesort_ranges state (ranges state)\<rparr>"

section \<open>Notions used to state and prove the properties\<close>


fun merge_lists :: "conf_t \<Rightarrow> range_t list \<Rightarrow> range_t list \<Rightarrow> range_t list" where
  "merge_lists state [] ys = ys"
| "merge_lists state (x # xs) [] = x # xs"
| "merge_lists state (x # xs) (y # ys) =
     (if merge state x y \<noteq> 0 then x # merge_lists state xs (y # ys)
      else y # merge_lists state (x # xs) ys)"

text \<open>
  The number an address stands for: the 32-bit value, or the 16 bytes read as one
  big-endian number.  Before a family is chosen every address compares equal.
\<close>

fun be_val :: "u8 list \<Rightarrow> nat" where
  "be_val [] = 0"
| "be_val (x # xs) = unat x * 256 ^ length xs + be_val xs"

fun addr_key :: "dhcp_version \<Rightarrow> ipaddr_t \<Rightarrow> nat" where
  "addr_key IPvUNKNOWN a = 0"
| "addr_key IPv4 a = unat (v4 a)"
| "addr_key IPv6 a = be_val (v6 a)"

text \<open>An IPv6 address has 16 bytes, as the C array type says.\<close>

definition wf_ipaddr :: "dhcp_version \<Rightarrow> ipaddr_t \<Rightarrow> bool" where
  "wf_ipaddr version a = (version = IPv6 \<longrightarrow> length (v6 a) = 16)"

subsection \<open>Example addresses, ranges and states for the sort\<close>

definition ipv4_addr :: "u32 \<Rightarrow> ipaddr_t" where
  "ipv4_addr w = \<lparr>v4 = w, v6 = replicate 16 0\<rparr>"

definition ipv6_addr :: "u8 list \<Rightarrow> ipaddr_t" where
  "ipv6_addr bytes = \<lparr>v4 = 0, v6 = bytes\<rparr>"

text \<open>The root network as \<^verbatim>\<open>prepare_memory\<close> creates it.\<close>

definition all_networks :: shared_network_t where
  "all_networks = \<lparr>name = ''All networks'', snet_available = 0, snet_used = 0,
                    snet_touched = 0, snet_backups = 0\<rparr>"

definition new_range :: "nat \<Rightarrow> ipaddr_t \<Rightarrow> ipaddr_t \<Rightarrow> range_t" where
  "new_range net lo hi =
     \<lparr>shared_net = net, first_ip = lo, last_ip = hi, count = 0, touched = 0, backups = 0\<rparr>"

definition new_lease :: "ipaddr_t \<Rightarrow> ltype \<Rightarrow> leases_t" where
  "new_lease addr ty = \<lparr>ip = addr, type = ty, ethernet = None\<rparr>"

text \<open>
  Eight IPv4 ranges 10.0.0.0-9, 10.0.0.16-25, ... that all belong to the root network,
  and the state that \<^verbatim>\<open>--sort=n\<close> (one \<^verbatim>\<open>NULL\<close> entry in the sort chain) gives.
\<close>

definition eight_ranges :: "range_t list" where
  "eight_ranges = map (\<lambda>i. new_range 0 (ipv4_addr (0x0A000000 + 16 * of_nat i))
                                      (ipv4_addr (0x0A000000 + 16 * of_nat i + 9))) [0..<8]"

definition sort_by_name_state :: "range_t list \<Rightarrow> conf_t" where
  "sort_by_name_state rs =
     \<lparr>shared_nets = [all_networks], ranges = rs, leases = [], ip_version = IPv4, sorts = [None]\<rparr>"

text \<open>Three IPv4 ranges and the state that \<^verbatim>\<open>--sort=i\<close> gives.\<close>

definition sort_by_ip_state :: conf_t where
  "sort_by_ip_state =
     \<lparr>shared_nets = [all_networks],
      ranges = [new_range 0 (ipv4_addr 0x0A000010) (ipv4_addr 0x0A000019),
                new_range 0 (ipv4_addr 0x0A000000) (ipv4_addr 0x0A000009),
                new_range 0 (ipv4_addr 0x0A000020) (ipv4_addr 0x0A000029)],
      leases = [], ip_version = IPv4, sorts = [Some (comp_ip IPv4)]\<rparr>"

subsection \<open>Leases of a range\<close>

text \<open>
  A lease lies in a range when its address is neither before the first nor after the
  last address of the range, by the comparison of the address family.
\<close>

definition in_range :: "dhcp_version \<Rightarrow> range_t \<Rightarrow> leases_t \<Rightarrow> bool" where
  "in_range version r l =
     (ipcomp version (first_ip r) (ip l) \<le> 0 \<and> ipcomp version (ip l) (last_ip r) \<le> 0)"

text \<open>The number of leases of one state in a range.\<close>

definition leases_in :: "dhcp_version \<Rightarrow> range_t \<Rightarrow> ltype \<Rightarrow> leases_t list \<Rightarrow> nat" where
  "leases_in version r ty ls = length (filter (\<lambda>l. in_range version r l \<and> type l = ty) ls)"

text \<open>
  The lease list in ascending address order with no address twice, as the traversal
  of the lease index is (the index is keyed by address).
\<close>

definition address_sorted :: "dhcp_version \<Rightarrow> leases_t list \<Rightarrow> bool" where
  "address_sorted version ls = sorted_wrt (\<lambda>a b. ipcomp version (ip a) (ip b) < 0) ls"

text \<open>
  The position a lease pointer stands for (the end of the list for \<^verbatim>\<open>NULL\<close>), and
  the pointers that point into the list.
\<close>

definition cursor_pos :: "leases_t list \<Rightarrow> nat option \<Rightarrow> nat" where
  "cursor_pos ls l = (case l of None \<Rightarrow> length ls | Some i \<Rightarrow> i)"

definition valid_cursor :: "leases_t list \<Rightarrow> nat option \<Rightarrow> bool" where
  "valid_cursor ls l = (case l of None \<Rightarrow> True | Some i \<Rightarrow> i < length ls)"

text \<open>Two range records that differ in their counters only.\<close>

definition same_range :: "range_t \<Rightarrow> range_t \<Rightarrow> bool" where
  "same_range r r0 = (first_ip r = first_ip r0 \<and> last_ip r = last_ip r0 \<and> shared_net r = shared_net r0)"

text \<open>What the loop body does to one range: each counter grows by the leases in the range.\<close>

definition counted :: "dhcp_version \<Rightarrow> leases_t list \<Rightarrow> range_t \<Rightarrow> range_t \<Rightarrow> bool" where
  "counted version ls r r' =
     (same_range r' r \<and>
      touched r' = touched r + leases_in version r FREE ls \<and>
      count r' = count r + leases_in version r ACTIVE ls \<and>
      backups r' = backups r + leases_in version r BACKUP ls)"

text \<open>The number of addresses from the first to the last address of a range.\<close>

definition range_addresses :: "dhcp_version \<Rightarrow> range_t \<Rightarrow> nat" where
  "range_addresses version r =
     (if addr_key version (first_ip r) \<le> addr_key version (last_ip r)
      then addr_key version (last_ip r) - addr_key version (first_ip r) + 1 else 0)"

text \<open>
  The range 10.0.0.0-10.0.0.3 of the root network with the leases 10.0.0.1 (active)
  and 10.0.0.2 (free).
\<close>

definition example_state :: conf_t where
  "example_state =
     \<lparr>shared_nets = [all_networks],
      ranges = [new_range 0 (ipv4_addr 0x0A000000) (ipv4_addr 0x0A000003)],
      leases = [new_lease (ipv4_addr 0x0A000001) ACTIVE, new_lease (ipv4_addr 0x0A000002) FREE],
      ip_version = IPv4, sorts = []\<rparr>"

subsection \<open>Totals of the shared networks\<close>









subsection \<open>Sizes of IPv6 ranges\<close>

text \<open>
  The body of the loop of \<^verbatim>\<open>get_range_size_v6\<close> on one pair of bytes, and the same
  step in exact integer arithmetic.
\<close>

definition size_step :: "int \<Rightarrow> u8 \<times> u8 \<Rightarrow> int" where
  "size_step sz p = dadd (dmul sz 256) (int (unat (fst p)) - int (unat (snd p)))"

definition exact_step :: "int \<Rightarrow> u8 \<times> u8 \<Rightarrow> int" where
  "exact_step sz p = sz * 256 + (int (unat (fst p)) - int (unat (snd p)))"

text \<open>The range \<open>::/1\<close>, from \<open>::\<close> to \<open>7fff:ffff:ffff:ffff:ffff:ffff:ffff:ffff\<close>.\<close>

definition half_space_range :: range_t where
  "half_space_range =
     new_range 0 (ipv6_addr [0,0,0,0,0,0,0,0,0,0,0,0,0,0,0,0])
                 (ipv6_addr [0x7f,0xff,0xff,0xff,0xff,0xff,0xff,0xff,
                             0xff,0xff,0xff,0xff,0xff,0xff,0xff,0xff])"

text \<open>
  Two ranges with the same last address \<open>::2000:0:0:100\<close>: the inner one starts at
  \<open>::100\<close> and has \<open>2^61 + 1\<close> addresses, the outer one starts one address earlier,
  at \<open>::ff\<close>.
\<close>

definition inner_range :: range_t where
  "inner_range =
     new_range 0 (ipv6_addr [0,0,0,0,0,0,0,0,0,0,0,0,0,0,1,0])
                 (ipv6_addr [0,0,0,0,0,0,0,0,0x20,0,0,0,0,0,1,0])"

definition outer_range :: range_t where
  "outer_range =
     new_range 0 (ipv6_addr [0,0,0,0,0,0,0,0,0,0,0,0,0,0,0,0xff])
                 (ipv6_addr [0,0,0,0,0,0,0,0,0x20,0,0,0,0,0,1,0])"

text \<open>The 256 addresses from \<open>2001:db8::10\<close> to \<open>2001:db8::10f\<close>.\<close>

definition small_range :: range_t where
  "small_range =
     new_range 0 (ipv6_addr [0x20,0x01,0x0d,0xb8,0,0,0,0,0,0,0,0,0,0,0,0x10])
                 (ipv6_addr [0x20,0x01,0x0d,0xb8,0,0,0,0,0,0,0,0,0,0,1,0x0f])"

subsection \<open>Trailing bits of a CIDR block\<close>

text \<open>
  Byte \<open>j\<close> of the 128-bit pattern whose first \<open>m\<close> bits are clear and whose remaining
  bits are set: the host part of a block with mask length \<open>m\<close>.
\<close>

definition trailing_ones :: "nat \<Rightarrow> nat \<Rightarrow> u8" where
  "trailing_ones m j =
     (if 8 * (j + 1) \<le> m then 0 else if m \<le> 8 * j then 0xff else mask (8 * (j + 1) - m))"

section \<open>The sort is a permutation\<close>

lemma length_insert_hold: "length (insert_hold state hold orig n) = length orig"
  by (induction n arbitrary: orig) auto

lemma mset_insert_hold:
  "n < length orig \<Longrightarrow> mset (insert_hold state hold orig n) = mset (orig[n := hold])"
proof (induction n arbitrary: orig)
  case 0
  then show ?case by simp
next
  case (Suc s)
  let ?ls = "orig[Suc s := hold]"
  have sw: "mset (?ls[Suc s := ?ls ! s, s := ?ls ! Suc s]) = mset ?ls"
    using Suc.prems by (intro mset_swap) auto
  have eq: "?ls[Suc s := ?ls ! s, s := ?ls ! Suc s] = orig[Suc s := orig ! s, s := hold]"
    using Suc.prems by simp
  show ?case
  proof (cases "merge state (orig ! s) hold \<noteq> 0")
    case True
    then show ?thesis by simp
  next
    case False
    have "mset (insert_hold state hold (orig[Suc s := orig ! s]) s)
          = mset (orig[Suc s := orig ! s, s := hold])"
      using Suc.prems by (intro Suc.IH) simp
    with False sw eq show ?thesis by simp
  qed
qed

lemma insertion_sort_Suc:
  "insertion_sort state orig (Suc k) =
     insert_hold state (insertion_sort state orig k ! k) (insertion_sort state orig k) k"
  by (simp add: insertion_sort_def)

lemma insertion_sort_0: "insertion_sort state orig 0 = orig"
  by (simp add: insertion_sort_def)

lemma length_insertion_sort: "length (insertion_sort state orig k) = length orig"
  by (induction k) (simp_all add: insertion_sort_0 insertion_sort_Suc length_insert_hold)

lemma mset_insertion_sort:
  "k \<le> length orig \<Longrightarrow> mset (insertion_sort state orig k) = mset orig"
proof (induction k)
  case 0
  then show ?case by (simp add: insertion_sort_0)
next
  case (Suc k)
  let ?o = "insertion_sort state orig k"
  have "k < length ?o" using Suc.prems by (simp add: length_insertion_sort)
  then have "mset (insert_hold state (?o ! k) ?o k) = mset (?o[k := ?o ! k])"
    by (rule mset_insert_hold)
  with Suc show ?case by (simp add: insertion_sort_Suc)
qed

lemma mset_nth_upt_Cons:
  "i < j \<Longrightarrow> mset (map f [i..<j]) = add_mset (f i) (mset (map f [Suc i..<j]))"
  by (simp add: upt_conv_Cons del: mset_map mset_upt)

lemma mset_merge_runs:
  "merge_runs state orig sz left u_right temp = (l', r', temp') \<Longrightarrow>
   mset temp' + mset (map (\<lambda>k. orig ! k) [l'..<sz div 2]) + mset (map (\<lambda>k. orig ! k) [r'..<sz])
   = mset temp + mset (map (\<lambda>k. orig ! k) [left..<sz div 2]) + mset (map (\<lambda>k. orig ! k) [u_right..<sz])"
proof (induction state orig sz left u_right temp rule: merge_runs.induct)
  case (1 state orig sz left u_right temp)
  show ?case
  proof (cases "left < sz div 2 \<and> u_right < sz")
    case False
    with "1.prems" show ?thesis by (simp add: merge_runs.simps[of state orig sz left u_right temp])
  next
    case True
    show ?thesis
    proof (cases "merge state (orig ! left) (orig ! u_right) \<noteq> 0")
      case takeleft: True
      with True "1.prems" have "merge_runs state orig sz (left + 1) u_right (temp @ [orig ! left]) = (l', r', temp')"
        by (simp add: merge_runs.simps[of state orig sz left u_right temp])
      from "1.IH"(1)[OF True takeleft this] mset_nth_upt_Cons[of left "sz div 2" "\<lambda>k. orig ! k"] True
      show ?thesis
        by (simp del: mset_map mset_upt)
    next
      case takeright: False
      with True "1.prems" have "merge_runs state orig sz left (u_right + 1) (temp @ [orig ! u_right]) = (l', r', temp')"
        by (simp add: merge_runs.simps[of state orig sz left u_right temp])
      from "1.IH"(2)[OF True takeright this] mset_nth_upt_Cons[of u_right sz "\<lambda>k. orig ! k"] True
      show ?thesis
        by (simp del: mset_map mset_upt)
    qed
  qed
qed

lemma mset_merge_halves:
  "sz = length orig \<Longrightarrow> mset (merge_halves state orig sz) = mset orig"
proof -
  assume sz: "sz = length orig"
  obtain l' r' temp' where mr: "merge_runs state orig sz 0 (sz div 2) [] = (l', r', temp')"
    by (cases "merge_runs state orig sz 0 (sz div 2) []") auto
  have split: "[0..<sz] = [0..<sz div 2] @ [sz div 2..<sz]"
    using upt_add_eq_append[of 0 "sz div 2" "sz - sz div 2"] by simp
  have "mset (merge_halves state orig sz) =
        mset temp' + mset (map (\<lambda>k. orig ! k) [l'..<sz div 2]) + mset (map (\<lambda>k. orig ! k) [r'..<sz])"
    by (simp add: merge_halves_def mr del: mset_map mset_upt)
  also have "\<dots> = mset (map (\<lambda>k. orig ! k) [0..<sz div 2]) + mset (map (\<lambda>k. orig ! k) [sz div 2..<sz])"
    using mset_merge_runs[OF mr] by (simp del: mset_map mset_upt)
  also have "\<dots> = mset (map (\<lambda>k. orig ! k) [0..<sz])"
    unfolding split by (simp del: mset_map mset_upt)
  also have "map (\<lambda>k. orig ! k) [0..<sz] = orig"
    using sz by (simp add: map_nth)
  finally show ?thesis .
qed

lemma mergesort_ranges_small:
  "length orig < MIN_MERGE_SIZE \<Longrightarrow>
   mergesort_ranges state orig = insertion_sort state orig (length orig)"
  by (simp add: mergesort_ranges.simps[of state orig])

lemma mergesort_ranges_large:
  "\<not> length orig < MIN_MERGE_SIZE \<Longrightarrow>
   mergesort_ranges state orig =
     merge_halves state
       (mergesort_ranges state (take (length orig div 2) orig) @
        mergesort_ranges state (drop (length orig div 2) orig)) (length orig)"
  by (simp add: mergesort_ranges.simps[of state orig] Let_def)

lemma mset_mergesort_ranges:
  "mset (mergesort_ranges state orig) = mset orig"
proof (induction state orig rule: mergesort_ranges.induct)
  case (1 state orig)
  let ?sz = "length orig"
  show ?case
  proof (cases "?sz < MIN_MERGE_SIZE")
    case True
    then show ?thesis
      by (simp add: mergesort_ranges_small mset_insertion_sort)
  next
    case False
    let ?lo = "mergesort_ranges state (take (?sz div 2) orig)"
    let ?hi = "mergesort_ranges state (drop (?sz div 2) orig)"
    have lo: "mset ?lo = mset (take (?sz div 2) orig)" using "1.IH"(1)[OF refl False] .
    have hi: "mset ?hi = mset (drop (?sz div 2) orig)" using "1.IH"(2)[OF refl False] .
    have whole: "mset (?lo @ ?hi) = mset orig"
    proof -
      have "mset (?lo @ ?hi) = mset (take (?sz div 2) orig @ drop (?sz div 2) orig)"
        using lo hi by (simp del: append_take_drop_id)
      then show ?thesis by simp
    qed
    have len: "length (?lo @ ?hi) = ?sz"
      using whole by (rule mset_eq_length)
    have "mset (mergesort_ranges state orig) = mset (merge_halves state (?lo @ ?hi) ?sz)"
      using False by (simp add: mergesort_ranges_large)
    also have "\<dots> = mset (?lo @ ?hi)" using len by (simp add: mset_merge_halves)
    also have "\<dots> = mset orig" by (rule whole)
    finally show ?thesis .
  qed
qed

text \<open>
  Claim C10.  For every range array and every comparator chain, the array after
  \<^verbatim>\<open>mergesort_ranges\<close> has the same elements with the same multiplicities as the array
  before it: nothing is lost, duplicated or changed.
\<close>

theorem mergesort_ranges_permutation:
  "mset (mergesort_ranges state orig) = mset orig"
  by (rule mset_mergesort_ranges)

section \<open>The sort orders by the comparator chain\<close>















section \<open>Address comparison and reversal\<close>

lemma be_val_bound: "be_val xs < 256 ^ length xs"
proof (induction xs)
  case Nil
  then show ?case by simp
next
  case (Cons x xs)
  have "unat x < 256" using unsigned_less[of x] by simp
  then have "unat x * 256 ^ length xs + be_val xs < (unat x + 1) * 256 ^ length xs"
    using Cons by simp
  also have "\<dots> \<le> 256 * 256 ^ length xs"
    using \<open>unat x < 256\<close> by (intro mult_right_mono) auto
  finally show ?case by simp
qed

lemma memcmp_be_val:
  "length xs = n \<Longrightarrow> length ys = n \<Longrightarrow>
   (memcmp xs ys n < 0 \<longleftrightarrow> be_val xs < be_val ys) \<and> (0 < memcmp xs ys n \<longleftrightarrow> be_val ys < be_val xs)"
proof (induction xs ys n rule: memcmp.induct)
  case (1 a b)
  then show ?case by simp
next
  case (2 x xs y ys n)
  show ?case
  proof (cases "x = y")
    case True
    then show ?thesis using 2 by simp
  next
    case False
    have len: "length xs = length ys" using "2.prems" by simp
    have bx: "be_val xs < 256 ^ length ys" using be_val_bound[of xs] len by simp
    have by': "be_val ys < 256 ^ length ys" by (rule be_val_bound)
    have ne: "unat x \<noteq> unat y" using False by (simp add: word_unat_eq_iff)
    have lt: "unat x < unat y \<Longrightarrow> unat x * 256 ^ length ys + be_val xs < unat y * 256 ^ length ys + be_val ys"
    proof -
      assume "unat x < unat y"
      then have "(unat x + 1) * 256 ^ length ys \<le> unat y * 256 ^ length ys"
        by (intro mult_right_mono) auto
      then show ?thesis using bx by simp
    qed
    have gt: "unat y < unat x \<Longrightarrow> unat y * 256 ^ length ys + be_val ys < unat x * 256 ^ length ys + be_val xs"
    proof -
      assume "unat y < unat x"
      then have "(unat y + 1) * 256 ^ length ys \<le> unat x * 256 ^ length ys"
        by (intro mult_right_mono) auto
      then show ?thesis using by' by simp
    qed
    have sgn: "(int (unat x) - int (unat y) < 0) = (unat x < unat y)"
              "(0 < int (unat x) - int (unat y)) = (unat y < unat x)"
      by linarith+
    have "memcmp (x # xs) (y # ys) (Suc n) = int (unat x) - int (unat y)"
      using False by simp
    moreover have "be_val (x # xs) = unat x * 256 ^ length ys + be_val xs"
      using len by simp
    moreover have "be_val (y # ys) = unat y * 256 ^ length ys + be_val ys"
      by simp
    ultimately show ?thesis
      unfolding sgn using ne lt gt
      by (metis sgn not_less_iff_gr_or_eq)
  qed
qed simp_all

lemma ipcomp_addr_key:
  assumes "wf_ipaddr version a" "wf_ipaddr version b"
  shows "(ipcomp version a b < 0 \<longleftrightarrow> addr_key version a < addr_key version b) \<and>
         (0 < ipcomp version a b \<longleftrightarrow> addr_key version b < addr_key version a)"
proof (cases version)
  case IPvUNKNOWN
  then show ?thesis by (simp add: ipcomp_init_def)
next
  case IPv4
  then show ?thesis by (auto simp: ipcomp_v4_def word_less_nat_alt)
next
  case IPv6
  then show ?thesis using assms memcmp_be_val[of "v6 a" 16 "v6 b"]
    by (simp add: ipcomp_v6_def wf_ipaddr_def)
qed




text \<open>
  On the three ranges 10.0.0.16-25, 10.0.0.0-9 and 10.0.0.32-41 the sort by address
  followed by the reversal gives 10.0.0.32-41, 10.0.0.16-25, 10.0.0.0-9.
\<close>

lemma sort_by_ip_state_sorted:
  "ranges (flip_ranges (sort_ranges sort_by_ip_state)) =
     [new_range 0 (ipv4_addr 0x0A000020) (ipv4_addr 0x0A000029),
      new_range 0 (ipv4_addr 0x0A000010) (ipv4_addr 0x0A000019),
      new_range 0 (ipv4_addr 0x0A000000) (ipv4_addr 0x0A000009)]"
  by code_simp



section \<open>Ties and sort keys\<close>

text \<open>
  A range that is not strictly before its right neighbour, so also a range that ties
  with it, is moved in front of it by the insertion sort; on a tie the merge takes the
  head of the right run.
\<close>

lemma insertion_sort_swaps_tied_pair:
  "merge state a b = 0 \<Longrightarrow> mergesort_ranges state [a, b] = [b, a]"
  by (simp add: mergesort_ranges_small MIN_MERGE_SIZE_def insertion_sort_def upt_rec)

lemma merge_lists_takes_right_on_tie:
  "merge state x y = 0 \<Longrightarrow> merge_lists state (x # xs) (y # ys) = y # merge_lists state (x # xs) ys"
  by simp

text \<open>
  Claim C1.  The sort does not keep tied ranges in their input order.  With the chain
  of \<^verbatim>\<open>--sort=n\<close> and ranges of one shared network, every pair of ranges ties (\<^verbatim>\<open>merge\<close>
  returns 0 both ways); the insertion sort reverses two such ranges, and on eight
  such ranges the insertion sort reverses each half and the merge step then emits the
  whole right run before the left run.
\<close>

theorem mergesort_ranges_reverses_ties:
  "merge (sort_by_name_state eight_ranges) (eight_ranges ! 0) (eight_ranges ! 1) = 0 \<and>
   merge (sort_by_name_state eight_ranges) (eight_ranges ! 1) (eight_ranges ! 0) = 0 \<and>
   mergesort_ranges (sort_by_name_state (take 2 eight_ranges)) (take 2 eight_ranges)
     = rev (take 2 eight_ranges) \<and>
   mergesort_ranges (sort_by_name_state eight_ranges) eight_ranges = rev eight_ranges"
  by code_simp

text \<open>
  Claim C7.  A character that is none of \<open>n i m c p t T e\<close> makes \<^verbatim>\<open>field_selector\<close>
  end the run with the error "unknown sort order"; no comparator is returned.  Each of
  the eight keys returns its comparator, and the \<^verbatim>\<open>NULL\<close> that \<open>n\<close> returns makes
  \<^verbatim>\<open>merge\<close> compare the names of the two shared networks.
\<close>

theorem field_selector_keys:
  "(c \<notin> set ''nimcptTe'' \<longrightarrow> field_selector c = Inl (Unknown_sort_order c)) \<and>
   field_selector CHR ''n'' = Inr None \<and>
   field_selector CHR ''i'' = Inr (Some Comp_ip) \<and>
   field_selector CHR ''m'' = Inr (Some Comp_max) \<and>
   field_selector CHR ''c'' = Inr (Some Comp_cur) \<and>
   field_selector CHR ''p'' = Inr (Some Comp_percent) \<and>
   field_selector CHR ''t'' = Inr (Some Comp_touched) \<and>
   field_selector CHR ''T'' = Inr (Some Comp_tc) \<and>
   field_selector CHR ''e'' = Inr (Some Comp_tcperc) \<and>
   merge (state\<lparr>sorts := [None]\<rparr>) left right =
     (let ret = strcmp (name (shared_nets state ! shared_net left))
                       (name (shared_nets state ! shared_net right))
      in if 0 < ret then 0 else if ret < 0 then 1 else 0)"
  by (simp add: field_selector_def merge_def Let_def)

theorem field_selector_keys_witness:
  "CHR ''x'' \<notin> set ''nimcptTe'' \<and> field_selector CHR ''x'' = Inl (Unknown_sort_order CHR ''x'')"
  using field_selector_keys [of "CHR ''x''"] by simp

section \<open>Reconciliation counts the leases of each range\<close>

lemma valid_hh_next: "valid_cursor ls (hh_next ls i)"
  by (simp add: valid_cursor_def hh_next_def)

lemma pos_hh_next: "i < length ls \<Longrightarrow> cursor_pos ls (hh_next ls i) = Suc i"
  by (auto simp: cursor_pos_def hh_next_def)

lemma leases_in_Cons:
  "leases_in version r ty (l # ls) =
     (if in_range version r l \<and> type l = ty then 1 else 0) + leases_in version r ty ls"
  by (simp add: leases_in_def)

lemma in_range_cong: "same_range r r0 \<Longrightarrow> in_range version r l = in_range version r0 l"
  by (simp add: in_range_def same_range_def)

lemma same_range_count_lease: "same_range (count_lease r ty) r0 = same_range r r0"
  by (cases ty) (simp_all add: same_range_def)

lemma count_lease_fields:
  "touched (count_lease r ty) = touched r + (if ty = FREE then 1 else 0)"
  "count (count_lease r ty) = count r + (if ty = ACTIVE then 1 else 0)"
  "backups (count_lease r ty) = backups r + (if ty = BACKUP then 1 else 0)"
  by (cases ty; simp)+

text \<open>All leases from a lease beyond the last address on are outside the range.\<close>

lemma beyond_last_none_in_range:
  assumes srt: "address_sorted version ls"
    and wf: "\<forall>l \<in> set ls. wf_ipaddr version (ip l)" "wf_ipaddr version (last_ip r)"
    and i: "i < length ls"
    and gt: "\<not> ipcomp version (ip (ls ! i)) (last_ip r) \<le> 0"
  shows "leases_in version r ty (drop i ls) = 0"
proof -
  have "\<not> in_range version r l" if "l \<in> set (drop i ls)" for l
  proof -
    from that obtain j where j: "j < length (drop i ls)" "l = drop i ls ! j"
      by (auto simp: in_set_conv_nth)
    then have l: "l = ls ! (i + j)" "i + j < length ls" using i by auto
    have wl: "wf_ipaddr version (ip l)" "wf_ipaddr version (ip (ls ! i))"
      using wf(1) l i by auto
    have "addr_key version (last_ip r) < addr_key version (ip (ls ! i))"
      using gt ipcomp_addr_key[OF wl(2) wf(2)] by linarith
    moreover have "addr_key version (ip (ls ! i)) \<le> addr_key version (ip l)"
    proof (cases "j = 0")
      case True
      then show ?thesis using l by simp
    next
      case False
      then have "ipcomp version (ip (ls ! i)) (ip (ls ! (i + j))) < 0"
        using srt l(2) by (simp add: address_sorted_def sorted_wrt_iff_nth_less)
      then show ?thesis using ipcomp_addr_key[OF wl(2) wl(1)] l(1) by simp
    qed
    ultimately have "0 < ipcomp version (ip l) (last_ip r)"
      using ipcomp_addr_key[OF wl(1) wf(2)] by simp
    then show ?thesis by (simp add: in_range_def)
  qed
  then show ?thesis by (simp add: leases_in_def)
qed

lemma scan_leases_counts:
  assumes srt: "address_sorted version ls"
    and wf: "\<forall>l \<in> set ls. wf_ipaddr version (ip l)"
            "wf_ipaddr version (first_ip r0)" "wf_ipaddr version (last_ip r0)"
    and "valid_cursor ls l" "same_range r r0" "scan_leases version ls r l = (r', l')"
  shows "same_range r' r0 \<and> valid_cursor ls l' \<and>
         touched r' = touched r + leases_in version r0 FREE (drop (cursor_pos ls l) ls) \<and>
         count r' = count r + leases_in version r0 ACTIVE (drop (cursor_pos ls l) ls) \<and>
         backups r' = backups r + leases_in version r0 BACKUP (drop (cursor_pos ls l) ls)"
  using assms
proof (induction version ls r l arbitrary: r' l' rule: scan_leases.induct)
  case (1 version ls range_p)
  then show ?case by (simp add: cursor_pos_def leases_in_def)
next
  case (2 version ls range_p i)
  have i: "i < length ls" using "2.prems" by (simp add: valid_cursor_def)
  have sr: "first_ip range_p = first_ip r0" "last_ip range_p = last_ip r0"
    using "2.prems" by (simp_all add: same_range_def)
  have wl: "wf_ipaddr version (ip (ls ! i))" using "2.prems" i by simp
  have dr: "drop i ls = ls ! i # drop (Suc i) ls" using i by (simp add: Cons_nth_drop_Suc)
  have pos: "cursor_pos ls (Some i) = i" by (simp add: cursor_pos_def)
  show ?case
  proof (cases "ipcomp version (ip (ls ! i)) (last_ip range_p) \<le> 0")
    case False
    then have res: "r' = range_p" "l' = Some i" using "2.prems"(7) by simp_all
    have "leases_in version r0 ty (drop i ls) = 0" for ty
      using False sr "2.prems" i by (intro beyond_last_none_in_range) simp_all
    then show ?thesis using "2.prems" by (simp add: res pos)
  next
    case le: True
    show ?thesis
    proof (cases "ipcomp version (ip (ls ! i)) (first_ip range_p) < 0")
      case True
      then have "0 < ipcomp version (first_ip r0) (ip (ls ! i))"
        using ipcomp_addr_key[OF wl "2.prems"(3)] ipcomp_addr_key[OF "2.prems"(3) wl] sr by simp
      then have out: "\<not> in_range version r0 (ls ! i)" by (simp add: in_range_def)
      have "scan_leases version ls range_p (hh_next ls i) = (r', l')"
        using "2.prems"(7) le True by simp
      from "2.IH"(1)[OF le True "2.prems"(1,2,3,4) valid_hh_next "2.prems"(6) this]
      show ?thesis using out i by (simp add: pos pos_hh_next dr leases_in_Cons)
    next
      case False
      then have "ipcomp version (first_ip r0) (ip (ls ! i)) \<le> 0"
        using ipcomp_addr_key[OF wl "2.prems"(3)] ipcomp_addr_key[OF "2.prems"(3) wl] sr
        by (simp add: not_less)
      then have inr: "in_range version r0 (ls ! i)" using le sr by (simp add: in_range_def)
      have sc: "scan_leases version ls (count_lease range_p (type (ls ! i))) (hh_next ls i) = (r', l')"
        using "2.prems"(7) le False by simp
      have sr': "same_range (count_lease range_p (type (ls ! i))) r0"
        using "2.prems" by (simp add: same_range_count_lease)
      from "2.IH"(2)[OF le False "2.prems"(1,2,3,4) valid_hh_next sr' sc]
      show ?thesis using inr i
        by (simp add: pos pos_hh_next dr leases_in_Cons count_lease_fields)
    qed
  qed
qed

lemma rewind_stops:
  "valid_cursor ls l \<Longrightarrow> rewind version ls r l = l' \<Longrightarrow>
   valid_cursor ls l' \<and>
   (\<forall>j. l' = Some j \<longrightarrow> \<not> ipcomp version (first_ip r) (ip (ls ! j)) < 0)"
proof (induction version ls r l rule: rewind.induct)
  case (1 version ls range_p)
  then show ?case by (simp add: valid_cursor_def)
next
  case (2 version ls range_p i)
  show ?case
  proof (cases "ipcomp version (first_ip range_p) (ip (ls ! i)) < 0")
    case True
    have v: "valid_cursor ls (hh_prev i)"
      using "2.prems"(1) by (auto simp: valid_cursor_def hh_prev_def)
    have "rewind version ls range_p (hh_prev i) = l'" using "2.prems"(2) True by simp
    from "2.IH"[OF True v this] show ?thesis .
  next
    case False
    then show ?thesis using "2.prems" by auto
  qed
qed

text \<open>Where the scan of a range starts, no lease before that place is in the range.\<close>

lemma before_start_none_in_range:
  assumes srt: "address_sorted version ls"
    and wf: "\<forall>l \<in> set ls. wf_ipaddr version (ip l)" "wf_ipaddr version (first_ip r)"
    and v: "valid_cursor ls l"
    and st: "start = (let l' = rewind version ls r l in if l' = None then leases_head ls else l')"
  shows "valid_cursor ls start \<and> leases_in version r ty (take (cursor_pos ls start) ls) = 0"
proof (cases "rewind version ls r l")
  case None
  then have "start = leases_head ls" using st by simp
  then show ?thesis
    by (cases ls) (simp_all add: leases_head_def valid_cursor_def cursor_pos_def leases_in_def)
next
  case (Some j)
  then have start: "start = Some j" using st by simp
  have j: "j < length ls" "\<not> ipcomp version (first_ip r) (ip (ls ! j)) < 0"
    using rewind_stops[OF v Some] by (simp_all add: valid_cursor_def)
  have wj: "wf_ipaddr version (ip (ls ! j))" using wf(1) j(1) by simp
  have kj: "addr_key version (ip (ls ! j)) \<le> addr_key version (first_ip r)"
    using j(2) ipcomp_addr_key[OF wf(2) wj] by (simp add: not_less)
  have "\<not> in_range version r x" if "x \<in> set (take j ls)" for x
  proof -
    from that obtain i where i: "i < j" "x = ls ! i"
      using j(1) by (auto simp: in_set_conv_nth)
    have wx: "wf_ipaddr version (ip x)" using wf(1) i j(1) by simp
    have "ipcomp version (ip (ls ! i)) (ip (ls ! j)) < 0"
      using srt i(1) j(1) by (simp add: address_sorted_def sorted_wrt_iff_nth_less)
    then have "addr_key version (ip x) < addr_key version (ip (ls ! j))"
      using ipcomp_addr_key[OF wx wj] i(2) by simp
    then have "addr_key version (ip x) < addr_key version (first_ip r)" using kj by simp
    then have "0 < ipcomp version (first_ip r) (ip x)"
      using ipcomp_addr_key[OF wf(2) wx] by simp
    then show ?thesis by (simp add: in_range_def)
  qed
  then have "leases_in version r ty (take j ls) = 0" by (simp add: leases_in_def)
  then show ?thesis using j(1) by (simp add: start valid_cursor_def cursor_pos_def)
qed

lemma leases_in_take_drop:
  "leases_in version r ty ls = leases_in version r ty (take n ls) + leases_in version r ty (drop n ls)"
proof -
  have "leases_in version r ty (take n ls @ drop n ls)
        = leases_in version r ty (take n ls) + leases_in version r ty (drop n ls)"
    unfolding leases_in_def by (simp only: filter_append length_append)
  then show ?thesis by simp
qed

text \<open>One pass of the loop body over a range: rewind, restart at the head, scan.\<close>

lemma range_pass_counts:
  assumes srt: "address_sorted version ls"
    and wf: "\<forall>l \<in> set ls. wf_ipaddr version (ip l)"
            "wf_ipaddr version (first_ip r)" "wf_ipaddr version (last_ip r)"
    and v: "valid_cursor ls l"
    and sc: "scan_leases version ls r
               (let l' = rewind version ls r l in if l' = None then leases_head ls else l') = (r', l'')"
  shows "same_range r' r \<and> valid_cursor ls l'' \<and>
         touched r' = touched r + leases_in version r FREE ls \<and>
         count r' = count r + leases_in version r ACTIVE ls \<and>
         backups r' = backups r + leases_in version r BACKUP ls"
proof -
  define start where "start = (let l' = rewind version ls r l in if l' = None then leases_head ls else l')"
  have b: "valid_cursor ls start" "\<And>ty. leases_in version r ty (take (cursor_pos ls start) ls) = 0"
    using before_start_none_in_range[OF srt wf(1,2) v start_def] by simp_all
  have sr: "same_range r r" by (simp add: same_range_def)
  have sc': "scan_leases version ls r start = (r', l'')" using sc by (simp add: start_def)
  have eq: "leases_in version r ty ls = leases_in version r ty (drop (cursor_pos ls start) ls)" for ty
    using leases_in_take_drop[of version r ty ls "cursor_pos ls start"] b(2)[of ty] by simp
  show ?thesis
    using scan_leases_counts[OF srt wf b(1) sr sc'] by (simp add: eq)
qed

lemma walk_ranges_counts:
  assumes "address_sorted version ls"
    and "\<forall>l \<in> set ls. wf_ipaddr version (ip l)"
    and "\<forall>r \<in> set rs. wf_ipaddr version (first_ip r) \<and> wf_ipaddr version (last_ip r)"
    and "valid_cursor ls l"
  shows "list_all2 (counted version ls) rs (fst (walk_ranges version ls rs l nets))"
  using assms
proof (induction rs arbitrary: l nets)
  case Nil
  then show ?case by simp
next
  case (Cons r rs)
  define start where "start = (let l' = rewind version ls r l in if l' = None then leases_head ls else l')"
  obtain r' l'' where sc: "scan_leases version ls r start = (r', l'')"
    by (cases "scan_leases version ls r start") auto
  have wfr: "wf_ipaddr version (first_ip r)" "wf_ipaddr version (last_ip r)"
    using Cons.prems(3) by simp_all
  have pass: "same_range r' r \<and> valid_cursor ls l'' \<and>
         touched r' = touched r + leases_in version r FREE ls \<and>
         count r' = count r + leases_in version r ACTIVE ls \<and>
         backups r' = backups r + leases_in version r BACKUP ls"
    using range_pass_counts[OF Cons.prems(1,2) wfr Cons.prems(4)] sc
    by (simp add: start_def)
  define nets' where "nets' = add_to_networks (get_range_size version r') r' nets"
  have rest: "list_all2 (counted version ls) rs (fst (walk_ranges version ls rs l'' nets'))"
    using Cons.prems pass by (intro Cons.IH) simp_all
  have "walk_ranges version ls (r # rs) l nets =
        (r' # fst (walk_ranges version ls rs l'' nets'), snd (walk_ranges version ls rs l'' nets'))"
    using sc by (simp add: start_def nets'_def Let_def split: prod.splits)
  moreover have "counted version ls r r'" using pass by (simp add: counted_def)
  ultimately show ?case using rest by simp
qed

lemma valid_leases_head: "valid_cursor ls (leases_head ls)"
  by (cases ls) (simp_all add: valid_cursor_def leases_head_def)

lemma ranges_do_counting:
  "ranges (do_counting state) =
     fst (walk_ranges (ip_version state) (leases state) (ranges state)
            (leases_head (leases state)) (shared_nets state))"
  by (simp add: do_counting_def split: prod.splits)

lemma walk_counts_nth:
  assumes "address_sorted (ip_version state) (leases state)"
    and "\<forall>l \<in> set (leases state). wf_ipaddr (ip_version state) (ip l)"
    and "\<forall>r \<in> set (ranges state). wf_ipaddr (ip_version state) (first_ip r) \<and>
                                      wf_ipaddr (ip_version state) (last_ip r)"
    and "i < length (ranges state)"
  shows "length (ranges (do_counting state)) = length (ranges state) \<and>
         first_ip (ranges (do_counting state) ! i) = first_ip (ranges state ! i) \<and>
         last_ip (ranges (do_counting state) ! i) = last_ip (ranges state ! i) \<and>
         touched (ranges (do_counting state) ! i) =
           touched (ranges state ! i) + leases_in (ip_version state) (ranges state ! i) FREE (leases state) \<and>
         count (ranges (do_counting state) ! i) =
           count (ranges state ! i) + leases_in (ip_version state) (ranges state ! i) ACTIVE (leases state) \<and>
         backups (ranges (do_counting state) ! i) =
           backups (ranges state ! i) + leases_in (ip_version state) (ranges state ! i) BACKUP (leases state)"
proof -
  have all: "list_all2 (counted (ip_version state) (leases state)) (ranges state) (ranges (do_counting state))"
    unfolding ranges_do_counting
    using assms(1,2,3) valid_leases_head by (rule walk_ranges_counts)
  then have len: "length (ranges (do_counting state)) = length (ranges state)"
    by (simp add: list_all2_lengthD)
  have "counted (ip_version state) (leases state) (ranges state ! i) (ranges (do_counting state) ! i)"
    using all assms(4) by (rule list_all2_nthD)
  then show ?thesis using len by (simp add: counted_def same_range_def)
qed

text \<open>
  Claim C2.  For every range of the array and every lease list in ascending address
  order (one lease per address, as the index holds them), \<^verbatim>\<open>do_counting\<close> adds to the
  range's \<open>touched\<close>, \<open>count\<close> and \<open>backups\<close> the number of FREE, ACTIVE and BACKUP
  leases whose address lies between its first and last address, each lease once; a
  lease before the first address or after the last adds nothing.  The example of the
  specification is the witness.
\<close>

theorem do_counting_counts_leases_in_range:
  assumes "address_sorted (ip_version state) (leases state)"
    and "\<forall>l \<in> set (leases state). wf_ipaddr (ip_version state) (ip l)"
    and "\<forall>r \<in> set (ranges state). wf_ipaddr (ip_version state) (first_ip r) \<and>
                                      wf_ipaddr (ip_version state) (last_ip r)"
    and "i < length (ranges state)"
  shows "length (ranges (do_counting state)) = length (ranges state) \<and>
         first_ip (ranges (do_counting state) ! i) = first_ip (ranges state ! i) \<and>
         last_ip (ranges (do_counting state) ! i) = last_ip (ranges state ! i) \<and>
         touched (ranges (do_counting state) ! i) =
           touched (ranges state ! i) + leases_in (ip_version state) (ranges state ! i) FREE (leases state) \<and>
         count (ranges (do_counting state) ! i) =
           count (ranges state ! i) + leases_in (ip_version state) (ranges state ! i) ACTIVE (leases state) \<and>
         backups (ranges (do_counting state) ! i) =
           backups (ranges state ! i) + leases_in (ip_version state) (ranges state ! i) BACKUP (leases state)"
  using assms by (rule walk_counts_nth)

theorem do_counting_counts_leases_in_range_witness:
  "address_sorted (ip_version example_state) (leases example_state) \<and>
   list_all (\<lambda>l. wf_ipaddr (ip_version example_state) (ip l)) (leases example_state) \<and>
   list_all (\<lambda>r. wf_ipaddr (ip_version example_state) (first_ip r) \<and>
                  wf_ipaddr (ip_version example_state) (last_ip r)) (ranges example_state) \<and>
   count (ranges (do_counting example_state) ! 0) = 1 \<and>
   touched (ranges (do_counting example_state) ! 0) = 1 \<and>
   backups (ranges (do_counting example_state) ! 0) = 0"
  using do_counting_counts_leases_in_range [of example_state 0]
  by (simp add: example_state_def address_sorted_def wf_ipaddr_def leases_in_def in_range_def
        ipcomp_v4_def new_lease_def new_range_def ipv4_addr_def)

lemma leases_in_all_types:
  "leases_in version r FREE ls + leases_in version r ACTIVE ls + leases_in version r BACKUP ls
   = length (filter (in_range version r) ls)"
proof (induction ls)
  case Nil
  then show ?case by (simp add: leases_in_def)
next
  case (Cons l ls)
  then show ?case by (cases "type l") (simp_all add: leases_in_Cons)
qed

lemma in_range_bounded:
  assumes "address_sorted version ls"
    and "\<forall>l \<in> set ls. wf_ipaddr version (ip l)"
    and "wf_ipaddr version (first_ip r)" "wf_ipaddr version (last_ip r)"
  shows "length (filter (in_range version r) ls) \<le> range_addresses version r"
proof -
  let ?k = "\<lambda>l. addr_key version (ip l)"
  let ?ks = "map ?k (filter (in_range version r) ls)"
  let ?kf = "addr_key version (first_ip r)"
  let ?kl = "addr_key version (last_ip r)"
  have "sorted_wrt (\<lambda>a b. ?k a < ?k b) ls"
  proof (rule sorted_wrt_mono_rel[rotated])
    show "sorted_wrt (\<lambda>a b. ipcomp version (ip a) (ip b) < 0) ls"
      using assms(1) by (simp add: address_sorted_def)
  next
    fix a b assume "a \<in> set ls" "b \<in> set ls" "ipcomp version (ip a) (ip b) < 0"
    then show "?k a < ?k b"
      using assms(2) ipcomp_addr_key[of version "ip a" "ip b"] by simp
  qed
  then have "sorted_wrt (\<lambda>a b. ?k a < ?k b) (filter (in_range version r) ls)"
    by (rule sorted_wrt_filter)
  then have "sorted_wrt (<) ?ks" by (simp add: sorted_wrt_map)
  then have "distinct ?ks" by (simp add: strict_sorted_iff)
  then have "card (set ?ks) = length ?ks" by (rule distinct_card)
  then have len: "length (filter (in_range version r) ls) = card (set ?ks)" by simp
  have "set ?ks \<subseteq> {?kf..?kl}"
  proof
    fix x assume "x \<in> set ?ks"
    then obtain l where l: "l \<in> set ls" "in_range version r l" "x = ?k l" by auto
    have wl: "wf_ipaddr version (ip l)" using assms(2) l(1) by simp
    show "x \<in> {?kf..?kl}"
      using l(2,3) ipcomp_addr_key[OF assms(3) wl] ipcomp_addr_key[OF wl assms(4)]
      by (simp add: in_range_def not_less[symmetric])
  qed
  then have "card (set ?ks) \<le> card {?kf..?kl}" by (intro card_mono) simp_all
  also have "\<dots> = range_addresses version r" by (auto simp: range_addresses_def)
  finally show ?thesis using len by simp
qed

text \<open>
  Claim C4.  With one lease per address, a range whose counters start at zero ends
  with \<open>count + touched + backups\<close> at most the number of addresses between its
  first and last address.
\<close>

theorem do_counting_no_overcount:
  assumes "address_sorted (ip_version state) (leases state)"
    and "\<forall>l \<in> set (leases state). wf_ipaddr (ip_version state) (ip l)"
    and "\<forall>r \<in> set (ranges state). wf_ipaddr (ip_version state) (first_ip r) \<and>
                                      wf_ipaddr (ip_version state) (last_ip r)"
    and "i < length (ranges state)"
    and "ip_version state \<noteq> IPvUNKNOWN"
    and "count (ranges state ! i) = 0" "touched (ranges state ! i) = 0"
        "backups (ranges state ! i) = 0"
  shows "count (ranges (do_counting state) ! i) + touched (ranges (do_counting state) ! i) +
         backups (ranges (do_counting state) ! i)
         \<le> range_addresses (ip_version state) (ranges state ! i)"
proof -
  let ?r = "ranges state ! i"
  have wr: "wf_ipaddr (ip_version state) (first_ip ?r)" "wf_ipaddr (ip_version state) (last_ip ?r)"
    using assms(3,4) by simp_all
  have "count (ranges (do_counting state) ! i) + touched (ranges (do_counting state) ! i) +
        backups (ranges (do_counting state) ! i)
        = leases_in (ip_version state) ?r FREE (leases state) +
          leases_in (ip_version state) ?r ACTIVE (leases state) +
          leases_in (ip_version state) ?r BACKUP (leases state)"
    using walk_counts_nth[OF assms(1,2,3,4)] assms(6,7,8) by simp
  also have "\<dots> = length (filter (in_range (ip_version state) ?r) (leases state))"
    by (rule leases_in_all_types)
  also have "\<dots> \<le> range_addresses (ip_version state) ?r"
    using assms(1,2) wr by (rule in_range_bounded)
  finally show ?thesis .
qed

theorem do_counting_no_overcount_witness:
  "address_sorted (ip_version example_state) (leases example_state) \<and>
   list_all (\<lambda>l. wf_ipaddr (ip_version example_state) (ip l)) (leases example_state) \<and>
   list_all (\<lambda>r. wf_ipaddr (ip_version example_state) (first_ip r) \<and>
                  wf_ipaddr (ip_version example_state) (last_ip r)) (ranges example_state) \<and>
   ip_version example_state \<noteq> IPvUNKNOWN \<and>
   range_addresses (ip_version example_state) (ranges example_state ! 0) = 4 \<and>
   count (ranges (do_counting example_state) ! 0) + touched (ranges (do_counting example_state) ! 0) +
     backups (ranges (do_counting example_state) ! 0) \<le> 4"
  using do_counting_no_overcount [of example_state 0]
  by (simp add: example_state_def address_sorted_def wf_ipaddr_def range_addresses_def
        ipcomp_v4_def new_lease_def new_range_def ipv4_addr_def)

text \<open>
  For IPv4 the number of addresses of a range is what \<^verbatim>\<open>get_range_size_v4\<close> returns,
  except for the range 0.0.0.0-255.255.255.255, where the 32-bit sum wraps to 0.
\<close>

lemma get_range_size_v4_exact:
  assumes "v4 (first_ip r) \<le> v4 (last_ip r)"
    and "\<not> (v4 (first_ip r) = 0 \<and> v4 (last_ip r) = 0xFFFFFFFF)"
  shows "get_range_size_v4 r = int (range_addresses IPv4 r)"
proof -
  let ?f = "v4 (first_ip r)" and ?l = "v4 (last_ip r)"
  have le: "unat ?f \<le> unat ?l" using assms(1) by (simp add: word_le_nat_alt)
  have d: "unat (?l - ?f) = unat ?l - unat ?f" using assms(1) by (rule unat_sub)
  have "unat ?l < 2 ^ 32" using unsigned_less[of ?l] by simp
  moreover have "unat ?f \<noteq> 0 \<or> unat ?l \<noteq> 2 ^ 32 - 1"
  proof (cases "?f = 0")
    case True
    then have "?l \<noteq> 0xFFFFFFFF" using assms(2) by simp
    then have "unat ?l \<noteq> unat (0xFFFFFFFF :: u32)" by (simp only: word_unat_eq_iff not_False_eq_True)
    moreover have "unat (0xFFFFFFFF :: u32) = 2 ^ 32 - 1" by simp
    ultimately show ?thesis by simp
  next
    case False
    then show ?thesis by (simp add: unat_eq_0)
  qed
  ultimately have small: "unat ?l - unat ?f + 1 < 2 ^ 32" using le by linarith
  have "unat (?l - ?f + 1) = unat ?l - unat ?f + 1"
    using small d by (simp add: unat_word_ariths)
  then have "uint (?l - ?f + 1) = int (unat ?l - unat ?f + 1)"
    by (metis uint_nat)
  then show ?thesis using le by (simp add: get_range_size_v4_def range_addresses_def)
qed

lemma round_double_small: "\<bar>x\<bar> < 2 ^ 53 \<Longrightarrow> round_double x = x"
  by (simp add: round_double_def Let_def ulp_of.simps[of "nat \<bar>x\<bar>"] nat_less_iff sgn_if)

lemma do_counting_example:
  "ranges (do_counting example_state) =
     [\<lparr>shared_net = 0, first_ip = ipv4_addr 0x0A000000, last_ip = ipv4_addr 0x0A000003,
       count = 1, touched = 1, backups = 0\<rparr>] \<and>
   shared_nets (do_counting example_state) =
     [\<lparr>name = ''All networks'', snet_available = 4, snet_used = 1, snet_touched = 1,
       snet_backups = 0\<rparr>]"
  by (simp add: do_counting_def example_state_def leases_head_def hh_next_def hh_prev_def
        ipcomp_v4_def new_lease_def new_range_def ipv4_addr_def all_networks_def
        add_to_networks_def add_range_def get_range_size_v4_def dadd_def round_double_small Let_def)

section \<open>Totals of the shared networks\<close>

lemma ulp_of_small: "n < 2 ^ 53 \<Longrightarrow> ulp_of n = 1"
  by (subst ulp_of.simps) simp

lemma ulp_of_double: "2 ^ 53 \<le> n \<Longrightarrow> ulp_of n = 2 * ulp_of (n div 2)"
  by (subst ulp_of.simps) simp

lemma ulp_of_range: "2 ^ 52 * 2 ^ k \<le> n \<Longrightarrow> n < 2 ^ 53 * 2 ^ k \<Longrightarrow> ulp_of n = 2 ^ k"
proof (induction k arbitrary: n)
  case 0
  then show ?case by (simp add: ulp_of_small)
next
  case (Suc k)
  define a :: nat where "a = 2 ^ k"
  have a: "1 \<le> a" by (simp add: a_def)
  have prems: "4503599627370496 * (2 * a) \<le> n" "n < 9007199254740992 * (2 * a)"
    using Suc.prems by (simp_all add: a_def)
  have lo: "2 ^ 52 * 2 ^ k \<le> n div 2" using prems(1) by (simp add: a_def[symmetric])
  have hi: "n div 2 < 2 ^ 53 * 2 ^ k" using prems(2) by (simp add: a_def[symmetric])
  have "2 ^ 53 \<le> n" using prems(1) a by simp
  then have "ulp_of n = 2 * ulp_of (n div 2)" by (rule ulp_of_double)
  then show ?case using Suc.IH[OF lo hi] by simp
qed

lemma round_double_exact: "\<bar>x\<bar> \<le> 2 ^ 53 \<Longrightarrow> round_double x = x"
proof (cases "\<bar>x\<bar> < 2 ^ 53")
  case True
  then have "nat \<bar>x\<bar> < 2 ^ 53" by (simp add: nat_less_iff)
  then have "ulp_of (nat \<bar>x\<bar>) = 1" by (rule ulp_of_small)
  then show ?thesis
    by (simp add: round_double_def Let_def sgn_if)
next
  case False
  assume "\<bar>x\<bar> \<le> 2 ^ 53"
  with False have ax: "\<bar>x\<bar> = 9007199254740992" by simp
  have "ulp_of 9007199254740992 = 2 ^ 1" by (rule ulp_of_range) simp_all
  then have u: "ulp_of (nat \<bar>x\<bar>) = 2" by (simp add: ax)
  have "x = 9007199254740992 \<or> x = - 9007199254740992" using ax by linarith
  then show ?thesis using u
    by (auto simp add: round_double_def Let_def)
qed

lemma round_double_tie: "round_double 9007199254740993 = 9007199254740992"
proof -
  have "ulp_of 9007199254740993 = 2 ^ 1" by (rule ulp_of_range) simp_all
  then show ?thesis by (simp add: round_double_def Let_def)
qed

















section \<open>CIDR blocks and the lease index\<close>

lemma cidr_last_v4_inner:
  "1 \<le> masklen \<Longrightarrow> masklen \<le> 32 \<Longrightarrow>
   cidr_last_v4 addr masklen = Some (addr\<lparr>v4 := v4 addr OR mask (nat (32 - masklen))\<rparr>)"
  by (simp add: cidr_last_v4_def Let_def mask_eq_decr_exp push_bit_eq_mult)

lemma bitmask_loop_done: "i \<le> 0 \<Longrightarrow> bitmask_loop i j bitmask = bitmask"
  by (subst bitmask_loop.simps) simp

lemma cidr_last_v6_zero:
  "length (v6 addr) = 16 \<Longrightarrow> cidr_last_v6 addr 0 = Some (addr\<lparr>v6 := replicate 16 0xff\<rparr>)"
proof -
  assume len: "length (v6 addr) = 16"
  have "map2 (\<lambda>a m. a OR NOT m) xs (replicate (length xs) 0) = replicate (length xs) (0xff :: u8)"
    for xs :: "u8 list"
    by (induction xs) simp_all
  from this[of "v6 addr"] show ?thesis
    by (simp add: cidr_last_v6_def bitmask_loop_done len)
qed

text \<open>
  For every mask length from 0 to 128 \<^verbatim>\<open>cidr_last_v6\<close> sets exactly the bits after the
  first \<open>m\<close> bits: the loop fills the bitmask with the network part, and the result
  is the base address or-ed with its complement.
\<close>

lemma length_bitmask_loop: "length (bitmask_loop i j bitmask) = length bitmask"
proof (induction i j bitmask rule: bitmask_loop.induct)
  case (1 i j bitmask)
  show ?case
  proof (cases "0 < i")
    case True
    then show ?thesis using 1 by (subst bitmask_loop.simps) simp
  next
    case False
    then show ?thesis by (subst bitmask_loop.simps) simp
  qed
qed

lemma nth_bitmask_loop:
  "p < length bitmask \<Longrightarrow>
   bitmask_loop i j bitmask ! p =
     (if j \<le> p \<and> 8 * int (p - j) < i
      then (if 8 * int (p - j) + 8 \<le> i then 0xff
            else push_bit (nat (8 - (i - 8 * int (p - j)))) (0xff :: u8))
      else bitmask ! p)"
proof (induction i j bitmask rule: bitmask_loop.induct)
  case (1 i j bitmask)
  show ?case
  proof (cases "0 < i")
    case False
    then have "bitmask_loop i j bitmask = bitmask" by (subst bitmask_loop.simps) simp
    moreover have "\<not> 8 * int (p - j) < i" using False by simp
    ultimately show ?thesis by simp
  next
    case True
    let ?v = "if 8 \<le> i then 0xff else push_bit (nat (8 - i)) (0xff :: u8)"
    let ?b = "bitmask[j := ?v]"
    have unf: "bitmask_loop i j bitmask = bitmask_loop (i - 8) (j + 1) ?b"
      using True by (subst bitmask_loop.simps) simp
    have IH: "bitmask_loop (i - 8) (j + 1) ?b ! p =
       (if j + 1 \<le> p \<and> 8 * int (p - (j + 1)) < i - 8
        then (if 8 * int (p - (j + 1)) + 8 \<le> i - 8 then 0xff
              else push_bit (nat (8 - (i - 8 - 8 * int (p - (j + 1))))) (0xff :: u8))
        else ?b ! p)"
      using "1.prems" by (intro "1.IH"[OF True]) simp
    consider "p < j" | "p = j" | "j < p" by linarith
    then show ?thesis
    proof cases
      case 1
      then show ?thesis unfolding unf IH by simp
    next
      case 2
      then show ?thesis unfolding unf IH using True "1.prems" by simp
    next
      case 3
      then have e: "int (p - (j + 1)) = int (p - j) - 1" by simp
      have nj: "?b ! p = bitmask ! p" using 3 by simp
      show ?thesis unfolding unf IH e nj using 3 by (simp add: algebra_simps)
    qed
  qed
qed

lemma not_push_bit_ff: "NOT (push_bit k (0xff :: u8)) = mask k"
proof -
  have e: "(0xff :: u8) = - 1" by simp
  show ?thesis by (simp only: e push_bit_minus_one_eq_not_mask bit.double_compl)
qed

lemma not_bitmask_byte:
  assumes "0 \<le> m" "p < 16"
  shows "NOT (bitmask_loop m 0 (replicate 16 0) ! p) = trailing_ones (nat m) p"
proof -
  from assms(1) obtain n where m: "m = int n" by (rule nonneg_int_cases)
  have n: "nat m = n" by (simp add: m)
  have nth: "bitmask_loop m 0 (replicate 16 0) ! p =
     (if 8 * int p < m
      then (if 8 * int p + 8 \<le> m then 0xff else push_bit (nat (8 - (m - 8 * int p))) (0xff :: u8))
      else 0)"
    using assms(2) by (simp add: nth_bitmask_loop)
  consider "8 * (p + 1) \<le> n" | "8 * p < n" "n < 8 * (p + 1)" | "n \<le> 8 * p"
    by arith
  then show ?thesis
  proof cases
    case 1
    have c1: "8 * int p + 8 \<le> m" using 1 unfolding m by arith
    have c2: "8 * int p < m" using 1 unfolding m by arith
    have "bitmask_loop m 0 (replicate 16 0) ! p = 0xff" using c1 c2 by (simp add: nth)
    moreover have "trailing_ones n p = 0" using 1 by (simp add: trailing_ones_def)
    ultimately show ?thesis by (simp add: n)
  next
    case 2
    have c1: "8 * int p < m" using 2 unfolding m by arith
    have c2: "\<not> 8 * int p + 8 \<le> m" using 2 unfolding m by arith
    have "n \<le> 8 * (p + 1)" using 2 by simp
    then have "int (8 * (p + 1) - n) = 8 - (int n - 8 * int p)"
      by (simp only: of_nat_diff) simp
    then have e: "8 - (int n - 8 * int p) = int (8 * (p + 1) - n)" by (rule sym)
    have k: "nat (8 - (m - 8 * int p)) = 8 * (p + 1) - n"
      by (simp only: m e nat_int)
    have "bitmask_loop m 0 (replicate 16 0) ! p = push_bit (8 * (p + 1) - n) (0xff :: u8)"
      using c1 c2 by (simp only: nth k if_True if_False)
    moreover have "trailing_ones n p = mask (8 * (p + 1) - n)"
      using 2 by (simp add: trailing_ones_def del: mask_eq_exp_minus_1)
    ultimately show ?thesis by (simp only: n not_push_bit_ff)
  next
    case 3
    have c: "\<not> 8 * int p < m" using 3 unfolding m by arith
    have "bitmask_loop m 0 (replicate 16 0) ! p = 0" using c by (simp add: nth)
    moreover have "trailing_ones n p = 0xff" using 3 by (simp add: trailing_ones_def)
    ultimately show ?thesis by (simp add: n)
  qed
qed

lemma cidr_last_v6_sets_trailing_bits:
  assumes "0 \<le> masklen" "masklen \<le> 128" "length (v6 addr) = 16"
  shows "cidr_last_v6 addr masklen =
           Some (addr\<lparr>v6 := map (\<lambda>j. v6 addr ! j OR trailing_ones (nat masklen) j) [0..<16]\<rparr>)"
proof -
  let ?bm = "bitmask_loop masklen 0 (replicate 16 0)"
  have len: "length ?bm = 16" by (simp add: length_bitmask_loop)
  have "map2 (\<lambda>a m. a OR NOT m) (v6 addr) ?bm
        = map (\<lambda>j. v6 addr ! j OR trailing_ones (nat masklen) j) [0..<16]"
  proof (rule nth_equalityI)
    show "length (map2 (\<lambda>a m. a OR NOT m) (v6 addr) ?bm)
          = length (map (\<lambda>j. v6 addr ! j OR trailing_ones (nat masklen) j) [0..<16])"
      using assms(3) len by simp
  next
    fix p assume "p < length (map2 (\<lambda>a m. a OR NOT m) (v6 addr) ?bm)"
    then have p: "p < 16" using assms(3) len by simp
    then show "map2 (\<lambda>a m. a OR NOT m) (v6 addr) ?bm ! p
               = map (\<lambda>j. v6 addr ! j OR trailing_ones (nat masklen) j) [0..<16] ! p"
      using assms(3) len not_bitmask_byte[OF assms(1) p] by simp
  qed
  then show ?thesis using assms(2) by (simp add: cidr_last_v6_def Let_def)
qed

text \<open>
  Claim C5.  For a mask length of 0 \<^verbatim>\<open>cidr_last_v4\<close> sets the netmask to 0 and returns
  the base address unchanged (10.0.0.0/0 gives 10.0.0.0, not 255.255.255.255), while
  \<^verbatim>\<open>cidr_last_v6\<close> returns the all-ones address for the same mask length.  For the
  mask lengths 1 to 32 the IPv4 result is the base with the low \<open>32 - m\<close> bits set
  (\<open>cidr_last_v4_inner\<close> above).
\<close>

theorem cidr_last_v4_mask_zero:
  "cidr_last IPv4 addr 0 = Some addr \<and>
   cidr_last IPv4 (ipv4_addr 0x0A000000) 0 = Some (ipv4_addr 0x0A000000) \<and>
   cidr_last IPv6 (ipv6_addr (replicate 16 0)) 0 = Some (ipv6_addr (replicate 16 0xff))"
  by (simp add: cidr_last_v4_def cidr_last_v6_def bitmask_loop_done ipv6_addr_def)

lemma find_lease_Some:
  "find_lease index addr = Some l \<Longrightarrow> l \<in> set index \<and> ip l = addr"
  by (auto simp: find_lease_def find_Some_iff)

lemma find_lease_None: "find_lease index addr = None \<longleftrightarrow> (\<forall>l \<in> set index. ip l \<noteq> addr)"
  by (auto simp: find_lease_def find_None_iff)

lemma map_ip_overwrite:
  "map ip (map (\<lambda>l. if ip l = addr then l\<lparr>type := st\<rparr> else l) index) = map ip index"
  by (induction index) simp_all

lemma map_ip_insert_or_update:
  "map ip (insert_or_update index addr st) =
     (if addr \<in> set (map ip index) then map ip index else map ip index @ [addr])"
proof (cases "find_lease index addr")
  case None
  then have "addr \<notin> set (map ip index)" by (auto simp: find_lease_None)
  then show ?thesis using None by (simp add: insert_or_update_def)
next
  case (Some l)
  then have "addr \<in> set (map ip index)" using find_lease_Some[OF Some] by force
  then show ?thesis using Some by (simp add: insert_or_update_def map_ip_overwrite)
qed

lemma find_app:
  "find P (xs @ ys) = (case find P xs of None \<Rightarrow> find P ys | Some x \<Rightarrow> Some x)"
  by (induction xs) simp_all

lemma distinct_filter_eq_one:
  "distinct xs \<Longrightarrow> a \<in> set xs \<Longrightarrow> length (filter (\<lambda>x. x = a) xs) = 1"
proof (induction xs)
  case Nil
  then show ?case by simp
next
  case (Cons x xs)
  show ?case
  proof (cases "x = a")
    case True
    then have "a \<notin> set xs" using Cons.prems(1) by simp
    then have "filter (\<lambda>x. x = a) xs = []" by (auto simp: filter_empty_conv)
    then show ?thesis using True by simp
  next
    case False
    then show ?thesis using Cons by simp
  qed
qed

lemma find_lease_insert_or_update:
  "\<exists>l. find_lease (insert_or_update index addr st) addr = Some l \<and> ip l = addr \<and> type l = st"
proof (cases "find_lease index addr")
  case None
  then have "find (\<lambda>l. ip l = addr) index = None" by (simp add: find_lease_def)
  then have "find_lease (index @ [\<lparr>ip = addr, type = st, ethernet = None\<rparr>]) addr
             = Some \<lparr>ip = addr, type = st, ethernet = None\<rparr>"
    by (simp add: find_lease_def find_app)
  then show ?thesis using None by (simp add: insert_or_update_def)
next
  case (Some l)
  have "\<exists>l'. find (\<lambda>l. ip l = addr) (map (\<lambda>l. if ip l = addr then l\<lparr>type := st\<rparr> else l) xs) = Some l'
             \<and> ip l' = addr \<and> type l' = st"
    if "\<exists>x \<in> set xs. ip x = addr" for xs :: "leases_t list"
    using that by (induction xs) auto
  moreover have "\<exists>x \<in> set index. ip x = addr" using find_lease_Some[OF Some] by auto
  ultimately show ?thesis using Some by (simp add: insert_or_update_def find_lease_def)
qed

lemma insert_or_update_twice:
  "insert_or_update (insert_or_update index addr s1) addr s2 = insert_or_update index addr s2"
proof (cases "find_lease index addr")
  case None
  then have no: "\<forall>l \<in> set index. ip l \<noteq> addr" by (simp add: find_lease_None)
  obtain l where l: "find_lease (index @ [\<lparr>ip = addr, type = s1, ethernet = None\<rparr>]) addr = Some l"
    using find_lease_insert_or_update[of index addr s1] None by (auto simp: insert_or_update_def)
  have "map (\<lambda>l. if ip l = addr then l\<lparr>type := s2\<rparr> else l) index = index"
    using no by (induction index) simp_all
  then show ?thesis using None l by (simp add: insert_or_update_def)
next
  case (Some l)
  obtain l' where l': "find_lease (map (\<lambda>l. if ip l = addr then l\<lparr>type := s1\<rparr> else l) index) addr = Some l'"
    using find_lease_insert_or_update[of index addr s1] Some by (auto simp: insert_or_update_def)
  have "map (\<lambda>l. if ip l = addr then l\<lparr>type := s2\<rparr> else l)
          (map (\<lambda>l. if ip l = addr then l\<lparr>type := s1\<rparr> else l) index)
        = map (\<lambda>l. if ip l = addr then l\<lparr>type := s2\<rparr> else l) index"
    by (induction index) simp_all
  then show ?thesis using Some l' by (simp add: insert_or_update_def)
qed

text \<open>
  Claim C6.  In an index with one record per address, \<open>insert_or_update addr s1\<close>
  followed by \<open>insert_or_update addr s2\<close> leaves exactly one record for \<open>addr\<close>, which
  \<open>find\<close> returns and whose state is \<open>s2\<close>; the index is the one that the second
  insertion alone would have produced, so nothing of \<open>s1\<close> is left.
\<close>

theorem insert_or_update_last_write_wins:
  assumes "distinct (map ip index)"
  shows "(\<exists>l. find_lease (insert_or_update (insert_or_update index addr s1) addr s2) addr = Some l \<and>
              ip l = addr \<and> type l = s2) \<and>
         length (filter (\<lambda>l. ip l = addr)
                   (insert_or_update (insert_or_update index addr s1) addr s2)) = 1 \<and>
         distinct (map ip (insert_or_update (insert_or_update index addr s1) addr s2)) \<and>
         insert_or_update (insert_or_update index addr s1) addr s2 = insert_or_update index addr s2"
proof -
  let ?idx = "insert_or_update index addr s2"
  have d: "distinct (map ip ?idx)"
    using assms by (simp add: map_ip_insert_or_update)
  have mem: "addr \<in> set (map ip ?idx)" by (simp add: map_ip_insert_or_update)
  have "length (filter (\<lambda>a. a = addr) (map ip ?idx)) = 1"
    using d mem by (rule distinct_filter_eq_one)
  then have "length (filter (\<lambda>l. ip l = addr) ?idx) = 1"
    by (simp add: filter_map comp_def)
  then show ?thesis
    using find_lease_insert_or_update[of index addr s2] d
    by (simp add: insert_or_update_twice)
qed

theorem insert_or_update_last_write_wins_witness:
  "distinct (map ip ([] :: leases_t list)) \<and>
   find_lease (insert_or_update (insert_or_update [] (ipv4_addr 0x0A000001) FREE)
                 (ipv4_addr 0x0A000001) ACTIVE) (ipv4_addr 0x0A000001)
     = Some (new_lease (ipv4_addr 0x0A000001) ACTIVE) \<and>
   length (insert_or_update (insert_or_update [] (ipv4_addr 0x0A000001) FREE)
             (ipv4_addr 0x0A000001) ACTIVE) = 1"
  using insert_or_update_last_write_wins [of "[]" "ipv4_addr 0x0A000001" FREE ACTIVE]
  by (simp add: insert_or_update_def find_lease_def new_lease_def)

section \<open>Size of an IPv6 range\<close>

lemma get_range_size_v6_fold:
  "get_range_size_v6 r = dadd (foldl size_step 0 (zip (v6 (last_ip r)) (v6 (first_ip r)))) 1"
proof -
  have "(\<lambda>sz (l, f). dadd (dmul sz 256) (int (unat l) - int (unat f))) = size_step"
    by (intro ext) (simp add: size_step_def case_prod_beta)
  then show ?thesis by (simp add: get_range_size_v6_def)
qed

lemma ulp_of_bounds: "2 ^ 52 \<le> n \<Longrightarrow> 1 \<le> ulp_of n \<and> 2 ^ 52 * ulp_of n \<le> n"
proof (induction n rule: ulp_of.induct)
  case (1 n)
  show ?case
  proof (cases "n < 2 ^ 53")
    case True
    then show ?thesis using "1.prems" by (simp add: ulp_of_small)
  next
    case False
    then have big: "2 ^ 53 \<le> n" by simp
    then have half: "2 ^ 52 \<le> n div 2" by simp
    have IH: "1 \<le> ulp_of (n div 2) \<and> 2 ^ 52 * ulp_of (n div 2) \<le> n div 2"
      using "1.IH"[OF False half] .
    have "ulp_of n = 2 * ulp_of (n div 2)" using big by (rule ulp_of_double)
    moreover have "2 * (n div 2) \<le> n" by simp
    ultimately show ?thesis using IH by (simp del: ulp_of.simps) linarith
  qed
qed

lemma ulp_of_big: "2 ^ 53 \<le> n \<Longrightarrow> 2 \<le> ulp_of n"
proof -
  assume big: "2 ^ 53 \<le> n"
  then have "2 ^ 52 \<le> n div 2" by simp
  then have "1 \<le> ulp_of (n div 2)" using ulp_of_bounds by blast
  then show ?thesis using ulp_of_double[OF big] by simp
qed

lemma round_double_big: "2 ^ 53 \<le> x \<Longrightarrow> 2 ^ 53 \<le> round_double x"
proof -
  assume big: "2 ^ 53 \<le> x"
  define n where "n = nat \<bar>x\<bar>"
  define q where "q = ulp_of n"
  define m where "m = n div q"
  define m' where "m' = (if 2 * (n mod q) < q then m
                else if q < 2 * (n mod q) then m + 1
                else if even m then m else m + 1)"
  have n: "2 ^ 53 \<le> n" using big by (simp add: n_def le_nat_iff)
  then have n52: "2 ^ 52 \<le> n" by simp
  have q2: "2 \<le> q" unfolding q_def using n by (rule ulp_of_big)
  have "2 ^ 52 * q \<le> n" unfolding q_def using ulp_of_bounds[OF n52] by simp
  then have "2 ^ 52 \<le> m" unfolding m_def using q2
    by (metis div_le_mono nonzero_mult_div_cancel_right not_numeral_le_zero)
  moreover have "m \<le> m'" by (simp add: m'_def)
  ultimately have "2 ^ 52 * 2 \<le> m' * q" using q2 by (intro mult_mono) simp_all
  then have "int (2 ^ 52 * 2) \<le> int (m' * q)" by (simp only: of_nat_le_iff)
  then have "(2::int) ^ 53 \<le> int (m' * q)" by simp
  moreover have "round_double x = int (m' * q)"
    using big by (simp add: round_double_def Let_def n_def q_def m_def m'_def sgn_if)
  ultimately show ?thesis by simp
qed

lemma round_double_lower: "0 \<le> c \<Longrightarrow> c \<le> 2 ^ 53 \<Longrightarrow> c \<le> x \<Longrightarrow> c \<le> round_double x"
proof (cases "x \<le> 2 ^ 53")
  case True
  assume "0 \<le> c" "c \<le> x"
  then have "\<bar>x\<bar> \<le> 2 ^ 53" using True by simp
  then show ?thesis using \<open>c \<le> x\<close> by (simp add: round_double_exact)
next
  case False
  assume "c \<le> 2 ^ 53"
  moreover have "2 ^ 53 \<le> round_double x" using False by (intro round_double_big) simp
  ultimately show ?thesis by simp
qed

lemma byte_diff_bounds: "- 255 \<le> int (unat (l :: u8)) - int (unat (f :: u8))"
                        "int (unat (l :: u8)) - int (unat (f :: u8)) \<le> 255"
proof -
  have "uint l < 256" "uint f < 256" using uint_lt2p[of l] uint_lt2p[of f] by simp_all
  moreover have "int (unat l) = uint l" "int (unat f) = uint f" by simp_all
  ultimately show "- 255 \<le> int (unat l) - int (unat f)" "int (unat l) - int (unat f) \<le> 255"
    using uint_ge_0[of l] uint_ge_0[of f] by linarith+
qed

lemma size_step_pos: "1 \<le> s \<Longrightarrow> 1 \<le> size_step s p"
proof -
  assume s: "1 \<le> s"
  have "256 \<le> dmul s 256"
    unfolding dmul_def using s by (intro round_double_lower) simp_all
  then have "1 \<le> dmul s 256 + (int (unat (fst p)) - int (unat (snd p)))"
    using byte_diff_bounds(1)[of "fst p" "snd p"] by linarith
  then show ?thesis
    unfolding size_step_def dadd_def by (intro round_double_lower) simp_all
qed

lemma fold_size_step_pos: "1 \<le> s \<Longrightarrow> 1 \<le> foldl size_step s zs"
  by (induction zs arbitrary: s) (simp_all add: size_step_pos)

lemma size_step_zero: "0 \<le> int (unat l) - int (unat f) \<Longrightarrow>
   size_step 0 (l, f) = int (unat l) - int (unat f)"
  using byte_diff_bounds(2)[of l f]
  by (simp add: size_step_def dadd_def dmul_def round_double_exact)

lemma fold_size_step_nonneg:
  "length fs = n \<Longrightarrow> length ls = n \<Longrightarrow> memcmp fs ls n \<le> 0 \<Longrightarrow>
   0 \<le> foldl size_step 0 (zip ls fs)"
proof (induction fs ls n rule: memcmp.induct)
  case (1 a b)
  then show ?case by simp
next
  case (2 f fs l ls n)
  show ?case
  proof (cases "f = l")
    case True
    then have "size_step 0 (l, f) = 0" by (simp add: size_step_zero)
    then show ?thesis using 2 True by simp
  next
    case False
    then have "int (unat f) - int (unat l) \<le> 0" using "2.prems"(3) by simp
    moreover have "unat f \<noteq> unat l" using False by (simp add: word_unat_eq_iff)
    ultimately have d: "1 \<le> int (unat l) - int (unat f)" by linarith
    then have "size_step 0 (l, f) = int (unat l) - int (unat f)" by (intro size_step_zero) simp
    then have "1 \<le> foldl size_step (size_step 0 (l, f)) (zip ls fs)"
      using d by (intro fold_size_step_pos) simp
    then show ?thesis by simp
  qed
qed simp_all

lemma get_range_size_v6_positive:
  assumes "length (v6 (first_ip r)) = 16" "length (v6 (last_ip r)) = 16"
    and "ipcomp_v6 (first_ip r) (last_ip r) \<le> 0"
  shows "1 \<le> get_range_size_v6 r"
proof -
  have "0 \<le> foldl size_step 0 (zip (v6 (last_ip r)) (v6 (first_ip r)))"
    using assms by (intro fold_size_step_nonneg[of _ 16]) (simp_all add: ipcomp_v6_def)
  then show ?thesis
    unfolding get_range_size_v6_fold dadd_def by (intro round_double_lower) simp_all
qed

lemma fold_exact_step_be_val:
  "length ls = length fs \<Longrightarrow>
   foldl exact_step a (zip ls fs) = a * 256 ^ length fs + int (be_val ls) - int (be_val fs)"
proof (induction ls fs arbitrary: a rule: list_induct2)
  case Nil
  then show ?case by simp
next
  case (Cons l ls f fs)
  have "foldl exact_step a (zip (l # ls) (f # fs))
        = exact_step a (l, f) * 256 ^ length fs + int (be_val ls) - int (be_val fs)"
    by (simp add: Cons.IH)
  also have "\<dots> = a * 256 ^ length (f # fs) + int (be_val (l # ls)) - int (be_val (f # fs))"
    using Cons.hyps by (simp add: exact_step_def algebra_simps)
  finally show ?case .
qed

lemma fold_exact_step_mono: "1 \<le> s \<Longrightarrow> s \<le> foldl exact_step s zs"
proof (induction zs arbitrary: s)
  case Nil
  then show ?case by simp
next
  case (Cons z zs)
  have "s \<le> exact_step s z" "1 \<le> exact_step s z"
    using Cons.prems byte_diff_bounds(1)[of "fst z" "snd z"] by (simp_all add: exact_step_def)
  then show ?case using Cons.IH[of "exact_step s z"] by simp
qed

lemma fold_size_step_exact:
  "length fs = length ls \<Longrightarrow>
   1 \<le> s \<or> (s = 0 \<and> memcmp fs ls (length fs) \<le> 0) \<Longrightarrow>
   foldl exact_step s (zip ls fs) < 2 ^ 53 \<Longrightarrow>
   foldl size_step s (zip ls fs) = foldl exact_step s (zip ls fs)"
proof (induction fs ls arbitrary: s rule: list_induct2)
  case Nil
  then show ?case by simp
next
  case (Cons f fs l ls)
  define n where "n = length fs"
  define d where "d = int (unat l) - int (unat f)"
  define s' where "s' = exact_step s (l, f)"
  have s': "s' = s * 256 + d" by (simp add: s'_def d_def exact_step_def)
  have db: "- 255 \<le> d" "d \<le> 255" using byte_diff_bounds[of l f] by (simp_all add: d_def)
  have bound: "foldl exact_step s' (zip ls fs) < 2 ^ 53" using Cons.prems(2) by (simp add: s'_def)
  have ne: "f \<noteq> l \<Longrightarrow> uint f \<noteq> uint l" by (simp add: word_uint_eq_iff)
  have next_ok: "1 \<le> s' \<or> (s' = 0 \<and> memcmp fs ls n \<le> 0)"
  proof (cases "1 \<le> s")
    case True
    then show ?thesis using db s' by simp
  next
    case False
    then have z: "s = 0" "memcmp (f # fs) (l # ls) (Suc n) \<le> 0"
      using Cons.prems(1) by (simp_all add: n_def)
    show ?thesis
    proof (cases "f = l")
      case True
      then show ?thesis using z by (simp add: s' d_def)
    next
      case False
      then have "int (unat f) - int (unat l) \<le> 0" using z(2) by simp
      then show ?thesis using ne[OF False] z(1) by (simp add: s' d_def)
    qed
  qed
  have small: "0 \<le> s'" "s' < 2 ^ 53"
  proof -
    show "0 \<le> s'" using next_ok by auto
    show "s' < 2 ^ 53"
    proof (cases "1 \<le> s'")
      case True
      then have "s' \<le> foldl exact_step s' (zip ls fs)" by (rule fold_exact_step_mono)
      then show ?thesis using bound by simp
    next
      case False
      then show ?thesis using next_ok by simp
    qed
  qed
  have s0: "0 \<le> s" using Cons.prems(1) by auto
  have "s * 256 \<le> 2 ^ 53" using small(2) db s' by simp
  then have "dmul s 256 = s * 256"
    unfolding dmul_def using s0 by (intro round_double_exact) simp
  moreover have "dadd (s * 256) d = s * 256 + d"
    unfolding dadd_def using small s' by (intro round_double_exact) simp
  ultimately have step: "size_step s (l, f) = s'"
    by (simp add: size_step_def s' d_def)
  have "foldl size_step s' (zip ls fs) = foldl exact_step s' (zip ls fs)"
    using next_ok bound by (intro Cons.IH) (simp_all add: n_def)
  then show ?case by (simp add: step s'_def[symmetric])
qed

lemma get_range_size_v6_exact:
  assumes "length (v6 (first_ip r)) = 16" "length (v6 (last_ip r)) = 16"
    and "ipcomp_v6 (first_ip r) (last_ip r) \<le> 0"
    and "range_addresses IPv6 r \<le> 2 ^ 53"
  shows "get_range_size_v6 r = int (range_addresses IPv6 r)"
proof -
  let ?fs = "v6 (first_ip r)" and ?ls = "v6 (last_ip r)"
  have le: "be_val ?fs \<le> be_val ?ls"
    using memcmp_be_val[of ?fs 16 ?ls] assms(1,2,3) by (simp add: ipcomp_v6_def not_less[symmetric])
  then have ra: "int (range_addresses IPv6 r) = int (be_val ?ls) - int (be_val ?fs) + 1"
    by (simp add: range_addresses_def)
  have ex: "foldl exact_step 0 (zip ?ls ?fs) = int (be_val ?ls) - int (be_val ?fs)"
    using assms(1,2) by (simp add: fold_exact_step_be_val)
  have lt: "foldl exact_step 0 (zip ?ls ?fs) < 2 ^ 53"
    using assms(4) ra ex by simp
  have "foldl size_step 0 (zip ?ls ?fs) = foldl exact_step 0 (zip ?ls ?fs)"
    using assms(1,2,3) lt by (intro fold_size_step_exact) (simp_all add: ipcomp_v6_def)
  then have "get_range_size_v6 r = dadd (int (be_val ?ls) - int (be_val ?fs)) 1"
    by (simp add: get_range_size_v6_fold ex)
  also have "\<dots> = int (be_val ?ls) - int (be_val ?fs) + 1"
    unfolding dadd_def using le lt ex by (intro round_double_exact) simp
  finally show ?thesis using ra by simp
qed

lemma round_double_at:
  assumes "2 ^ 52 * 2 ^ k \<le> n" "n < 2 ^ 53 * 2 ^ k"
  shows "round_double (int n) =
           int ((if 2 * (n mod 2 ^ k) < 2 ^ k then n div 2 ^ k
                 else if 2 ^ k < 2 * (n mod 2 ^ k) then n div 2 ^ k + 1
                 else if even (n div 2 ^ k) then n div 2 ^ k else n div 2 ^ k + 1) * 2 ^ k)"
proof -
  have u: "ulp_of n = 2 ^ k" using assms by (rule ulp_of_range)
  have "0 < n" using assms(1) by (cases "n = 0") simp_all
  then show ?thesis
    by (simp add: round_double_def Let_def u sgn_if del: of_nat_mult of_nat_power)
qed

lemma round_double_pow2_plus:
  assumes "2 * d < 2 ^ k"
  shows "round_double (int (2 ^ 52 * 2 ^ k + d)) = int (2 ^ 52 * 2 ^ k)"
proof -
  have d: "d < 2 ^ k" using assms by simp
  have lo: "2 ^ 52 * 2 ^ k \<le> 2 ^ 52 * 2 ^ k + d" by simp
  have "2 ^ 52 * 2 ^ k + d < 2 ^ 52 * 2 ^ k + 2 ^ 52 * 2 ^ k"
    using d by (intro add_strict_left_mono) (simp add: less_le_trans[OF d])
  then have hi: "2 ^ 52 * 2 ^ k + d < 2 ^ 53 * 2 ^ k" by simp
  have dv: "(2 ^ 52 * 2 ^ k + d) div 2 ^ k = 2 ^ 52" using d by simp
  have md: "(2 ^ 52 * 2 ^ k + d) mod 2 ^ k = d" using d by simp
  show ?thesis
    unfolding round_double_at[OF lo hi] dv md using assms by simp
qed

lemmas half_space_roundings =
  round_double_at [of 2 "2 ^ 55 - 256", simplified]
  round_double_at [of 2 "2 ^ 55 - 1", simplified]
  round_double_pow2_plus [of 0 11, simplified] round_double_pow2_plus [of 255 11, simplified]
  round_double_pow2_plus [of 0 19, simplified] round_double_pow2_plus [of 255 19, simplified]
  round_double_pow2_plus [of 0 27, simplified] round_double_pow2_plus [of 255 27, simplified]
  round_double_pow2_plus [of 0 35, simplified] round_double_pow2_plus [of 255 35, simplified]
  round_double_pow2_plus [of 0 43, simplified] round_double_pow2_plus [of 255 43, simplified]
  round_double_pow2_plus [of 0 51, simplified] round_double_pow2_plus [of 255 51, simplified]
  round_double_pow2_plus [of 0 59, simplified] round_double_pow2_plus [of 255 59, simplified]
  round_double_pow2_plus [of 0 67, simplified] round_double_pow2_plus [of 255 67, simplified]
  round_double_pow2_plus [of 0 75, simplified] round_double_pow2_plus [of 255 75, simplified]
  round_double_pow2_plus [of 1 75, simplified]

lemma get_range_size_v6_half_space: "get_range_size_v6 half_space_range = 2 ^ 127"
  by (simp add: get_range_size_v6_def half_space_range_def new_range_def ipv6_addr_def
        dadd_def dmul_def round_double_exact half_space_roundings)

lemmas boundary_roundings =
  round_double_pow2_plus [of 0 9, simplified] round_double_pow2_plus [of 1 9, simplified]
  round_double_at [of 8 "2 ^ 61 - 255", simplified]

lemma get_range_size_v6_inner: "get_range_size_v6 inner_range = 2 ^ 61"
  by (simp add: get_range_size_v6_def inner_range_def new_range_def ipv6_addr_def
        dadd_def dmul_def round_double_exact boundary_roundings)

lemma get_range_size_v6_outer: "get_range_size_v6 outer_range = 2 ^ 61 - 256"
  by (simp add: get_range_size_v6_def outer_range_def new_range_def ipv6_addr_def
        dadd_def dmul_def round_double_exact round_double_tie boundary_roundings)

lemma range_addresses_inner_outer:
  "range_addresses IPv6 inner_range = 2 ^ 61 + 1 \<and> range_addresses IPv6 outer_range = 2 ^ 61 + 2"
  by (simp add: range_addresses_def inner_range_def outer_range_def new_range_def ipv6_addr_def)

lemma memcmp_Cons:
  "memcmp (x # xs) (y # ys) n =
     (if n = 0 then 0 else if x = y then memcmp xs ys (n - 1) else int (unat x) - int (unat y))"
  by (cases n) simp_all

lemma inner_in_outer:
  "ipcomp_v6 (first_ip outer_range) (first_ip inner_range) < 0 \<and>
   ipcomp_v6 (last_ip inner_range) (last_ip outer_range) = 0"
  by (simp add: ipcomp_v6_def inner_range_def outer_range_def new_range_def ipv6_addr_def memcmp_Cons)

text \<open>
  Claim C9, as amended.  For every IPv6 range whose first address is not after its
  last, \<^verbatim>\<open>get_range_size\<close> is strictly positive.  When the range has at most \<open>2^53\<close>
  addresses the size is their exact number, and every range inside it has a size that
  is not larger.  The range \<open>::/1\<close> has size \<open>2^127\<close>.
\<close>

theorem get_range_size_v6_positive_exact:
  assumes "length (v6 (first_ip r)) = 16" "length (v6 (last_ip r)) = 16"
    and "ipcomp_v6 (first_ip r) (last_ip r) \<le> 0"
  shows "0 < get_range_size IPv6 r \<and>
         (range_addresses IPv6 r \<le> 2 ^ 53 \<longrightarrow>
            get_range_size IPv6 r = int (range_addresses IPv6 r)) \<and>
         (range_addresses IPv6 r \<le> 2 ^ 53 \<longrightarrow>
          length (v6 (first_ip r')) = 16 \<longrightarrow> length (v6 (last_ip r')) = 16 \<longrightarrow>
          ipcomp_v6 (first_ip r) (first_ip r') \<le> 0 \<longrightarrow>
          ipcomp_v6 (first_ip r') (last_ip r') \<le> 0 \<longrightarrow>
          ipcomp_v6 (last_ip r') (last_ip r) \<le> 0 \<longrightarrow>
            get_range_size IPv6 r' \<le> get_range_size IPv6 r) \<and>
         get_range_size IPv6 half_space_range = 2 ^ 127"
proof -
  have pos: "0 < get_range_size IPv6 r"
    using get_range_size_v6_positive[OF assms] by simp
  have ex: "get_range_size IPv6 r = int (range_addresses IPv6 r)"
    if "range_addresses IPv6 r \<le> 2 ^ 53"
    using get_range_size_v6_exact[OF assms that] by simp
  have mono: "get_range_size IPv6 r' \<le> get_range_size IPv6 r"
    if small: "range_addresses IPv6 r \<le> 2 ^ 53"
      and len: "length (v6 (first_ip r')) = 16" "length (v6 (last_ip r')) = 16"
      and inside: "ipcomp_v6 (first_ip r) (first_ip r') \<le> 0"
                  "ipcomp_v6 (first_ip r') (last_ip r') \<le> 0"
                  "ipcomp_v6 (last_ip r') (last_ip r) \<le> 0"
  proof -
    have k1: "be_val (v6 (first_ip r)) \<le> be_val (v6 (first_ip r'))"
      using memcmp_be_val[of "v6 (first_ip r)" 16 "v6 (first_ip r')"] assms(1) len(1) inside(1)
      by (simp add: ipcomp_v6_def not_less[symmetric])
    have k2: "be_val (v6 (first_ip r')) \<le> be_val (v6 (last_ip r'))"
      using memcmp_be_val[of "v6 (first_ip r')" 16 "v6 (last_ip r')"] len inside(2)
      by (simp add: ipcomp_v6_def not_less[symmetric])
    have k3: "be_val (v6 (last_ip r')) \<le> be_val (v6 (last_ip r))"
      using memcmp_be_val[of "v6 (last_ip r')" 16 "v6 (last_ip r)"] assms(2) len(2) inside(3)
      by (simp add: ipcomp_v6_def not_less[symmetric])
    have le: "range_addresses IPv6 r' \<le> range_addresses IPv6 r"
      using k1 k2 k3 by (simp add: range_addresses_def)
    then have "range_addresses IPv6 r' \<le> 2 ^ 53" using small by simp
    then have "get_range_size_v6 r' = int (range_addresses IPv6 r')"
      using len inside(2) by (intro get_range_size_v6_exact)
    then show ?thesis using ex[OF small] le by simp
  qed
  show ?thesis
    using pos ex mono get_range_size_v6_half_space by simp
qed

theorem get_range_size_v6_positive_exact_witness:
  "length (v6 (first_ip small_range)) = 16 \<and> length (v6 (last_ip small_range)) = 16 \<and>
   ipcomp_v6 (first_ip small_range) (last_ip small_range) < 0 \<and>
   range_addresses IPv6 small_range = 256 \<and>
   get_range_size IPv6 small_range = 256 \<and>
   get_range_size IPv6 half_space_range = 2 ^ 127"
  using get_range_size_v6_positive_exact [of small_range small_range]
  by (simp add: small_range_def new_range_def ipv6_addr_def ipcomp_v6_def memcmp_Cons
        range_addresses_def)

text \<open>
  Beyond \<open>2^53\<close> the double rounds, and the size is neither exact nor monotonic in the
  bounds, although it still fits in 64 bits: the inner range has \<open>2^61 + 1\<close> addresses
  and size \<open>2^61\<close>, the outer range, one address longer, has size \<open>2^61 - 256\<close>.
\<close>

theorem get_range_size_v6_not_monotonic:
  "ipcomp_v6 (first_ip outer_range) (first_ip inner_range) < 0 \<and>
   ipcomp_v6 (first_ip inner_range) (last_ip inner_range) < 0 \<and>
   ipcomp_v6 (last_ip inner_range) (last_ip outer_range) = 0 \<and>
   range_addresses IPv6 inner_range = 2 ^ 61 + 1 \<and>
   range_addresses IPv6 outer_range = 2 ^ 61 + 2 \<and>
   get_range_size IPv6 inner_range = 2 ^ 61 \<and>
   get_range_size IPv6 outer_range = 2 ^ 61 - 256 \<and>
   get_range_size IPv6 outer_range < get_range_size IPv6 inner_range"
  using inner_in_outer range_addresses_inner_outer
  by (simp add: get_range_size_v6_inner get_range_size_v6_outer)
     (simp add: ipcomp_v6_def inner_range_def new_range_def ipv6_addr_def memcmp_Cons)

end
